theory Spec2Isabelle
  imports Main "HOL-Library.Sublist"
begin

section \<open>Python strings\<close>

text \<open>
  A Python \<open>str\<close> is a sequence of Unicode code points; a code point is a natural
  number.  Literals of the source are written with \<open>lit\<close>.
\<close>

type_synonym pychar = nat
type_synonym pystr = "pychar list"

definition lit :: "string \<Rightarrow> pystr" where
  "lit s = map of_char s"

definition NL :: pychar where "NL = 10"
definition CR :: pychar where "CR = 13"
definition COMMA :: pychar where "COMMA = 44"
definition QUOTE :: pychar where "QUOTE = 34"

text \<open>\<open>sub in s\<close> on strings: \<open>sub\<close> occurs in \<open>s\<close> as a contiguous block.\<close>

fun py_in :: "pystr \<Rightarrow> pystr \<Rightarrow> bool" where
  "py_in sub [] = (sub = [])"
| "py_in sub (c # cs) = (prefix sub (c # cs) \<or> py_in sub cs)"

text \<open>
  The characters \<open>str.strip()\<close> removes: the code points for which CPython's
  \<open>Py_UNICODE_ISSPACE\<close> holds.
\<close>

definition py_isspace :: "pychar \<Rightarrow> bool" where
  "py_isspace c =
     ((9 \<le> c \<and> c \<le> 13) \<or> (28 \<le> c \<and> c \<le> 32) \<or> c = 133 \<or> c = 160 \<or> c = 5760
      \<or> (8192 \<le> c \<and> c \<le> 8202) \<or> c = 8232 \<or> c = 8233 \<or> c = 8239 \<or> c = 8287
      \<or> c = 12288)"

definition py_lstrip :: "pystr \<Rightarrow> pystr" where
  "py_lstrip s = dropWhile py_isspace s"

definition py_rstrip :: "pystr \<Rightarrow> pystr" where
  "py_rstrip s = rev (dropWhile py_isspace (rev s))"

definition py_strip :: "pystr \<Rightarrow> pystr" where
  "py_strip s = py_rstrip (py_lstrip s)"

text \<open>\<open>s.split('\n')\<close>: the pieces between line feeds; never the empty list.\<close>

fun split_nl :: "pystr \<Rightarrow> pystr list" where
  "split_nl [] = [[]]"
| "split_nl (c # cs) =
     (if c = NL then [] # split_nl cs
      else (case split_nl cs of [] \<Rightarrow> [[c]] | l # ls \<Rightarrow> (c # l) # ls))"

section \<open>The result table\<close>

text \<open>
  \<open>results_table\<close> is a \<open>QTableWidget\<close> with six columns.  A cell either holds no item
  (\<open>None\<close>) or an item with a text; a row gives the cell of each column, and only the
  columns below \<open>columnCount\<close> are ever read or written.  \<open>setRowCount\<close> drops the rows
  beyond the new count and adds rows without items; \<open>setItem\<close> outside the table is
  ignored.
\<close>

type_synonym cell = "pystr option"
type_synonym table = "(nat \<Rightarrow> cell) list"

definition columnCount :: nat where
  "columnCount = 6"

definition rowCount :: "table \<Rightarrow> nat" where
  "rowCount t = length t"

definition item :: "table \<Rightarrow> nat \<Rightarrow> nat \<Rightarrow> cell" where
  "item t row col = (if row < length t \<and> col < columnCount then (t ! row) col else None)"

definition setRowCount :: "nat \<Rightarrow> table \<Rightarrow> table" where
  "setRowCount n t = take n t @ replicate (n - length t) (\<lambda>col. None)"

definition setItem :: "nat \<Rightarrow> nat \<Rightarrow> pystr \<Rightarrow> table \<Rightarrow> table" where
  "setItem row col txt t =
     (if row < length t \<and> col < columnCount then t[row := (t ! row)(col \<mapsto> txt)] else t)"

text \<open>\<open>item.text() if item else ""\<close>\<close>

definition cell_text :: "cell \<Rightarrow> pystr" where
  "cell_text c = (case c of None \<Rightarrow> [] | Some s \<Rightarrow> s)"

text \<open>The six cell values of every row, in order: what the table shows.\<close>

definition cell_values :: "table \<Rightarrow> pystr list list" where
  "cell_values t =
     map (\<lambda>row. map (\<lambda>col. cell_text (item t row col)) [0..<columnCount]) [0..<rowCount t]"

section \<open>The window's state\<close>

record summary =
  total_matches :: nat
  filename_matches :: nat
  content_matches :: nat
  summary_path :: pystr
  summary_case_sensitive :: bool
  terms_count :: nat

datatype dialog =
  Information pystr pystr
| Warning pystr pystr
| Critical pystr pystr

datatype signal = Progress pystr | Finished pystr | Error pystr

record worker =
  running :: bool
  emitted :: bool
  args :: "pystr list"

datatype file_content = Text pystr | Unreadable pystr

record gui =
  os_nt :: bool
  files :: "string \<Rightarrow> file_content option"
  write_protected :: "string \<Rightarrow> bool"
  path_edit :: pystr
  terms_edit :: pystr
  regex_edit :: pystr
  case_sensitive_cb :: bool
  verbose_cb :: bool
  results_table :: table
  log_output :: "pystr list"
  summary_text :: "summary option"
  search_btn_text :: string
  search_btn_enabled :: bool
  save_btn_enabled :: bool
  progress_bar_visible :: bool
  status_bar :: pystr
  tab_index :: nat
  dialogs :: "dialog list"
  threads :: "worker list"
  search_thread :: "nat option"
  pending :: "signal list"

section \<open>Summarize\<close>

text \<open>
  The loop body of \<open>update_summary\<close> for one row: the pair is
  \<open>(filename_matches, content_matches)\<close>.
\<close>

definition count_row :: "table \<Rightarrow> nat \<Rightarrow> nat \<times> nat \<Rightarrow> nat \<times> nat" where
  "count_row t row acc =
     (case item t row 0 of
        None \<Rightarrow> acc
      | Some search_type \<Rightarrow>
          if py_in (lit ''FileName'') search_type then (fst acc + 1, snd acc)
          else if py_in (lit ''Content'') search_type then (fst acc, snd acc + 1)
          else acc)"

definition count_matches :: "table \<Rightarrow> nat \<times> nat" where
  "count_matches t = fold (count_row t) [0..<rowCount t] (0, 0)"

definition update_summary :: "nat \<Rightarrow> gui \<Rightarrow> gui" where
  "update_summary n st =
     st\<lparr>summary_text := Some
        \<lparr>total_matches = n,
         filename_matches = fst (count_matches (results_table st)),
         content_matches = snd (count_matches (results_table st)),
         summary_path = path_edit st,
         summary_case_sensitive = case_sensitive_cb st,
         terms_count = length (filter (\<lambda>t. py_strip t \<noteq> []) (split_nl (terms_edit st)))\<rparr>\<rparr>"

text \<open>The texts of the items in the first column, top to bottom.\<close>

definition first_column :: "table \<Rightarrow> pystr list" where
  "first_column t = concat (map (\<lambda>row. case item t row 0 of None \<Rightarrow> [] | Some s \<Rightarrow> [s])
     [0..<rowCount t])"

definition is_filename :: "pystr \<Rightarrow> bool" where
  "is_filename s = py_in (lit ''FileName'') s"

definition is_content :: "pystr \<Rightarrow> bool" where
  "is_content s = (\<not> py_in (lit ''FileName'') s \<and> py_in (lit ''Content'') s)"

text \<open>The three numbers the summary reports: total, filename matches, content matches.\<close>

definition summary_counts :: "gui \<Rightarrow> (nat \<times> nat \<times> nat) option" where
  "summary_counts st =
     map_option (\<lambda>s. (total_matches s, filename_matches s, content_matches s)) (summary_text st)"

section \<open>Text files\<close>

text \<open>
  Reading a file opened in text mode without \<open>newline=''\<close> translates \<open>\r\n\<close> and a lone
  \<open>\r\<close> to \<open>\n\<close> (universal newlines).  Iterating over the file yields its lines, each
  with its line feed; a last line without one is yielded as it is.
\<close>

fun universal_newlines :: "pystr \<Rightarrow> pystr" where
  "universal_newlines [] = []"
| "universal_newlines [c] = [if c = CR then NL else c]"
| "universal_newlines (c # d # ds) =
     (if c = CR then NL # (if d = NL then universal_newlines ds else universal_newlines (d # ds))
      else c # universal_newlines (d # ds))"

fun file_lines :: "pystr \<Rightarrow> pystr list" where
  "file_lines [] = []"
| "file_lines (c # cs) =
     (if c = NL then [NL] # file_lines cs
      else (case file_lines cs of [] \<Rightarrow> [[c]] | l # ls \<Rightarrow> (c # l) # ls))"

text \<open>
  Writing to a file opened in text mode with the default \<open>newline\<close> turns every \<open>\n\<close>
  into the platform's line separator: \<open>\r\n\<close> on Windows, \<open>\n\<close> elsewhere.
\<close>

definition os_linesep :: "bool \<Rightarrow> pystr \<Rightarrow> pystr" where
  "os_linesep nt s = (if nt then concat (map (\<lambda>c. if c = NL then [CR, NL] else [c]) s) else s)"

section \<open>The csv module, excel dialect\<close>

text \<open>
  \<open>csv.reader\<close> and \<open>csv.writer\<close> are called with their defaults: delimiter \<open>,\<close>, quote
  character \<open>"\<close> doubled inside quoted fields, no escape character, initial spaces kept,
  \<open>QUOTE_MINIMAL\<close>, line terminator \<open>\r\n\<close>, not strict, field size limit 131072.
  The reader is CPython's state machine \<open>parse_process_char\<close>; the states that only an
  escape character reaches are left out.  \<open>None\<close> as input character is the end-of-line
  mark the reader feeds itself after each line.
\<close>

datatype ParserState =
  START_RECORD | START_FIELD | IN_FIELD | IN_QUOTED_FIELD | QUOTE_IN_QUOTED_FIELD | EAT_CRNL

datatype csv_error = FieldLimit | NewlineInUnquotedField

record reader =
  state :: ParserState
  rfields :: "pystr list"
  rfield :: pystr

definition field_limit :: nat where
  "field_limit = 131072"

definition parse_reset :: reader where
  "parse_reset = \<lparr>state = START_RECORD, rfields = [], rfield = []\<rparr>"

definition parse_save_field :: "reader \<Rightarrow> reader" where
  "parse_save_field r = r\<lparr>rfields := rfields r @ [rfield r], rfield := []\<rparr>"

definition parse_add_char :: "reader \<Rightarrow> pychar \<Rightarrow> csv_error + reader" where
  "parse_add_char r c =
     (if length (rfield r) \<ge> field_limit then Inl FieldLimit
      else Inr (r\<lparr>rfield := rfield r @ [c]\<rparr>))"

text \<open>A line end seen outside quotes closes the field and the record.\<close>

definition end_record :: "reader \<Rightarrow> pychar option \<Rightarrow> reader" where
  "end_record r c =
     (parse_save_field r)\<lparr>state := (if c = None then START_RECORD else EAT_CRNL)\<rparr>"

definition add_char_to :: "ParserState \<Rightarrow> reader \<Rightarrow> pychar \<Rightarrow> csv_error + reader" where
  "add_char_to s r c =
     (case parse_add_char r c of Inl e \<Rightarrow> Inl e | Inr r' \<Rightarrow> Inr (r'\<lparr>state := s\<rparr>))"

definition start_field :: "reader \<Rightarrow> pychar option \<Rightarrow> csv_error + reader" where
  "start_field r c =
     (case c of
        None \<Rightarrow> Inr (end_record r c)
      | Some ch \<Rightarrow>
          if ch = NL \<or> ch = CR then Inr (end_record r c)
          else if ch = QUOTE then Inr (r\<lparr>state := IN_QUOTED_FIELD\<rparr>)
          else if ch = COMMA then Inr (parse_save_field r)
          else add_char_to IN_FIELD r ch)"

definition parse_process_char :: "reader \<Rightarrow> pychar option \<Rightarrow> csv_error + reader" where
  "parse_process_char r c =
     (case state r of
        START_RECORD \<Rightarrow>
          (case c of
             None \<Rightarrow> Inr r
           | Some ch \<Rightarrow>
               if ch = NL \<or> ch = CR then Inr (r\<lparr>state := EAT_CRNL\<rparr>)
               else start_field (r\<lparr>state := START_FIELD\<rparr>) c)
      | START_FIELD \<Rightarrow> start_field r c
      | IN_FIELD \<Rightarrow>
          (case c of
             None \<Rightarrow> Inr (end_record r c)
           | Some ch \<Rightarrow>
               if ch = NL \<or> ch = CR then Inr (end_record r c)
               else if ch = COMMA then Inr ((parse_save_field r)\<lparr>state := START_FIELD\<rparr>)
               else add_char_to IN_FIELD r ch)
      | IN_QUOTED_FIELD \<Rightarrow>
          (case c of
             None \<Rightarrow> Inr r
           | Some ch \<Rightarrow>
               if ch = QUOTE then Inr (r\<lparr>state := QUOTE_IN_QUOTED_FIELD\<rparr>)
               else add_char_to IN_QUOTED_FIELD r ch)
      | QUOTE_IN_QUOTED_FIELD \<Rightarrow>
          (case c of
             None \<Rightarrow> Inr (end_record r c)
           | Some ch \<Rightarrow>
               if ch = QUOTE then add_char_to IN_QUOTED_FIELD r ch
               else if ch = COMMA then Inr ((parse_save_field r)\<lparr>state := START_FIELD\<rparr>)
               else if ch = NL \<or> ch = CR then Inr (end_record r c)
               else add_char_to IN_FIELD r ch)
      | EAT_CRNL \<Rightarrow>
          (case c of
             None \<Rightarrow> Inr (r\<lparr>state := START_RECORD\<rparr>)
           | Some ch \<Rightarrow>
               if ch = NL \<or> ch = CR then Inr r else Inl NewlineInUnquotedField))"

text \<open>
  One line goes through the machine character by character, then the end-of-line mark.
\<close>

fun feed_chars :: "reader \<Rightarrow> pystr \<Rightarrow> csv_error + reader" where
  "feed_chars r [] = Inr r"
| "feed_chars r (c # cs) =
     (case parse_process_char r (Some c) of Inl e \<Rightarrow> Inl e | Inr r' \<Rightarrow> feed_chars r' cs)"

definition feed_line :: "reader \<Rightarrow> pystr \<Rightarrow> csv_error + reader" where
  "feed_line r l =
     (case feed_chars r l of Inl e \<Rightarrow> Inl e | Inr r' \<Rightarrow> parse_process_char r' None)"

text \<open>
  \<open>Reader_iternext\<close> from a parser state: lines are taken until the machine is back in
  \<open>START_RECORD\<close>.  When the input ends inside a record, the open field is saved and the
  record returned.  The result is the record and the lines not yet read; \<open>None\<close> is
  \<open>StopIteration\<close>.
\<close>

fun read_record :: "reader \<Rightarrow> pystr list \<Rightarrow> csv_error + (pystr list \<times> pystr list) option" where
  "read_record r [] =
     (if rfield r \<noteq> [] \<or> state r = IN_QUOTED_FIELD
      then Inr (Some (rfields (parse_save_field r), []))
      else Inr None)"
| "read_record r (l # ls) =
     (case feed_line r l of
        Inl e \<Rightarrow> Inl e
      | Inr r' \<Rightarrow>
          if state r' \<noteq> START_RECORD then read_record r' ls
          else Inr (Some (rfields r', ls)))"

text \<open>\<open>next(csv_reader, None)\<close>: the parser is reset before each record.\<close>

definition csv_next :: "pystr list \<Rightarrow> csv_error + (pystr list \<times> pystr list) option" where
  "csv_next ls = read_record parse_reset ls"

text \<open>\<open>list(csv_reader)\<close>: records are taken until \<open>StopIteration\<close>.\<close>

function csv_list :: "pystr list \<Rightarrow> csv_error + pystr list list" where
  "csv_list ls =
     (case csv_next ls of
        Inl e \<Rightarrow> Inl e
      | Inr None \<Rightarrow> Inr []
      | Inr (Some (row, rest)) \<Rightarrow>
          (case csv_list rest of Inl e \<Rightarrow> Inl e | Inr rows \<Rightarrow> Inr (row # rows)))"
  by pat_completeness auto
termination
proof (relation "measure length")
  show "wf (measure length)" by simp
next
  fix ls :: "pystr list" and x2 x row rest
  assume a: "csv_next ls = Inr x2" "x2 = Some x" "(row, rest) = x"
  have le: "length rest' \<le> length ks" if "read_record r ks = Inr (Some (row', rest'))"
    for r ks row' rest'
    using that
  proof (induction ks arbitrary: r)
    case Nil
    then show ?case by (simp split: if_splits)
  next
    case (Cons k ks)
    then show ?case by (fastforce split: sum.splits if_splits)
  qed
  from a have rr: "read_record parse_reset ls = Inr (Some (row, rest))"
    by (simp add: csv_next_def)
  show "(rest, ls) \<in> measure length"
  proof (cases ls)
    case Nil
    with rr show ?thesis by (simp add: parse_reset_def)
  next
    case (Cons k ks)
    with rr have "length rest \<le> length ks"
      by (auto split: sum.splits if_splits dest: le)
    with Cons show ?thesis by simp
  qed
qed

declare csv_list.simps [simp del]

definition csv_error_str :: "csv_error \<Rightarrow> pystr" where
  "csv_error_str e =
     (case e of
        FieldLimit \<Rightarrow> lit ''field larger than field limit (131072)''
      | NewlineInUnquotedField \<Rightarrow>
          lit ''new-line character seen in unquoted field - do you need to open the file with newline=''
            @ [39, 39, 63])"

text \<open>
  \<open>writer.writerow\<close>: a field is quoted when it contains the delimiter, the quote character
  or a character of the line terminator; a quote inside it is doubled.  The pair is the
  record buffer and the number of fields joined so far.  A record that would come out
  empty (one empty field) is written as a quoted empty field.
\<close>

definition needs_quote :: "pystr \<Rightarrow> bool" where
  "needs_quote s = (\<exists>c \<in> set s. c = COMMA \<or> c = QUOTE \<or> c = CR \<or> c = NL)"

definition double_quotes :: "pystr \<Rightarrow> pystr" where
  "double_quotes s = concat (map (\<lambda>c. if c = QUOTE then [QUOTE, QUOTE] else [c]) s)"

definition join_append :: "pystr \<Rightarrow> pystr \<times> nat \<Rightarrow> pystr \<times> nat" where
  "join_append s rec =
     (fst rec @ (if snd rec > 0 then [COMMA] else [])
        @ (if needs_quote s then [QUOTE] @ double_quotes s @ [QUOTE] else s),
      snd rec + 1)"

definition writerow :: "pystr list \<Rightarrow> pystr" where
  "writerow row =
     (let rec = fold join_append row ([], 0)
      in (if snd rec > 0 \<and> fst rec = [] then [QUOTE, QUOTE] else fst rec) @ [CR, NL])"

section \<open>Files of the installation directory\<close>

text \<open>
  \<open>files\<close> maps a file name to what is on disk: a text, or a content whose reading raises
  (an encoding or input error, with the exception's message).  Opening a write-protected
  file for writing raises; otherwise the file is replaced by what is written.
\<close>

datatype exn = PermissionError string

definition write_file :: "string \<Rightarrow> pystr \<Rightarrow> gui \<Rightarrow> exn option \<times> gui" where
  "write_file name content st =
     (if write_protected st name then (Some (PermissionError name), st)
      else (None, st\<lparr>files := (files st)(name \<mapsto> Text content)\<rparr>))"

section \<open>Search Invoker\<close>

text \<open>
  The loop of \<open>prepare_search_files\<close> over the lines of one text box: what \<open>f.write\<close>
  has put into the file so far is the accumulator.
\<close>

definition write_line :: "pystr \<Rightarrow> pystr \<Rightarrow> pystr" where
  "write_line line buf =
     (let line = py_strip line in if line \<noteq> [] then buf @ line @ [NL] else buf)"

definition list_file_text :: "pystr \<Rightarrow> pystr" where
  "list_file_text text = fold write_line (split_nl text) []"

definition prepare_list_file :: "string \<Rightarrow> pystr \<Rightarrow> gui \<Rightarrow> exn option \<times> gui" where
  "prepare_list_file name box st =
     (let text = py_strip box
      in if text \<noteq> [] then write_file name (os_linesep (os_nt st) (list_file_text text)) st
         else (None, st))"

definition prepare_search_files :: "gui \<Rightarrow> exn option \<times> gui" where
  "prepare_search_files st =
     (case prepare_list_file ''.terms_list'' (terms_edit st) st of
        (Some e, st') \<Rightarrow> (Some e, st')
      | (None, st') \<Rightarrow> prepare_list_file ''.regex_list'' (regex_edit st') st')"

definition build_args :: "gui \<Rightarrow> pystr list" where
  "build_args st =
     (if os_nt st then
        (if py_strip (path_edit st) \<noteq> [] then [lit ''-SearchPath'', py_strip (path_edit st)]
         else [])
        @ (if case_sensitive_cb st then [lit ''-CaseSensitive''] else [])
        @ (if verbose_cb st then [lit ''-Verbose''] else [])
      else
        (if py_strip (path_edit st) \<noteq> [] then [lit ''-p'', py_strip (path_edit st)] else [])
        @ (if case_sensitive_cb st then [lit ''-c''] else [])
        @ (if verbose_cb st then [lit ''-v''] else []))"

definition clear_results :: "gui \<Rightarrow> gui" where
  "clear_results st =
     st\<lparr>results_table := setRowCount 0 (results_table st),
        log_output := [],
        summary_text := None,
        save_btn_enabled := False\<rparr>"

text \<open>\<open>self.search_thread and self.search_thread.isRunning()\<close>\<close>

definition thread_is_running :: "gui \<Rightarrow> bool" where
  "thread_is_running st =
     (case search_thread st of
        None \<Rightarrow> False
      | Some i \<Rightarrow> i < length (threads st) \<and> running (threads st ! i))"

text \<open>
  \<open>start_search\<close>.  The new \<open>SearchThread\<close> object is added to the store of thread objects
  and \<open>search_thread\<close> refers to it; \<open>start()\<close> makes it run.  An exception of
  \<open>prepare_search_files\<close> leaves the method at that point.
\<close>

definition start_search :: "gui \<Rightarrow> exn option \<times> gui" where
  "start_search st =
     (if thread_is_running st then (None, st)
      else
        (case prepare_search_files st of
           (Some e, st1) \<Rightarrow> (Some e, st1)
         | (None, st1) \<Rightarrow>
             (let args = build_args st1;
                  st2 = clear_results st1;
                  st3 = st2\<lparr>threads := threads st2 @ [\<lparr>running = False, emitted = False, args = args\<rparr>],
                           search_thread := Some (length (threads st2))\<rparr>;
                  st4 = st3\<lparr>search_btn_text := ''Searching...'',
                           search_btn_enabled := False,
                           progress_bar_visible := True,
                           status_bar := lit ''Search in progress...''\<rparr>
              in (None, st4\<lparr>threads := (threads st4)[length (threads st2) :=
                                (threads st4 ! length (threads st2))\<lparr>running := True\<rparr>]\<rparr>))))"

text \<open>
  \<open>SearchThread.run\<close>.  What the child process does is the environment's: either
  \<open>Popen\<close> raises (with the exception's message), or the child runs and exits with a
  return code, having written its standard output and its standard error.  With
  \<open>text=True\<close>, \<open>communicate()\<close> decodes both; bytes that are no text in the locale's
  encoding make it raise, whatever the return code is.  The result of \<open>run\<close> is the
  signals emitted, in order.
\<close>

datatype captured = Decoded pystr | Undecodable pystr

datatype proc_outcome = SpawnRaises pystr | Exits int captured captured

definition communicate :: "captured \<Rightarrow> captured \<Rightarrow> pystr + (pystr \<times> pystr)" where
  "communicate out err =
     (case out of
        Undecodable msg \<Rightarrow> Inl msg
      | Decoded stdout \<Rightarrow>
          (case err of
             Undecodable msg \<Rightarrow> Inl msg
           | Decoded stderr \<Rightarrow> Inr (stdout, stderr)))"

definition command :: "bool \<Rightarrow> pystr list \<Rightarrow> pystr list" where
  "command nt as =
     (if nt then
        [lit ''powershell'', lit ''-ExecutionPolicy'', lit ''Bypass'', lit ''-File'',
         lit ''File-FY.ps1''] @ as
      else [lit ''bash'', lit ''File-FY.sh''] @ as)"

definition SearchThread_run :: "bool \<Rightarrow> (pystr list \<Rightarrow> proc_outcome) \<Rightarrow> pystr list \<Rightarrow> signal list" where
  "SearchThread_run nt popen as =
     Progress (lit ''Starting search...'') #
     (case popen (command nt as) of
        SpawnRaises msg \<Rightarrow> [Error (lit ''Failed to run search: '' @ msg)]
      | Exits returncode out err \<Rightarrow>
          (case communicate out err of
             Inl msg \<Rightarrow> [Error (lit ''Failed to run search: '' @ msg)]
           | Inr (stdout, stderr) \<Rightarrow>
               if returncode = 0 then [Finished stdout]
               else [Error (lit ''Error: '' @ stderr)]))"

text \<open>A child that exits with code zero after writing bytes that do not decode.\<close>

definition garbled_child :: "pystr list \<Rightarrow> proc_outcome" where
  "garbled_child cmd = Exits 0 (Undecodable (lit ''invalid start byte'')) (Decoded [])"

section \<open>Result Interchange\<close>

text \<open>The two loops of \<open>load_results\<close> that fill the table.\<close>

definition fill_row :: "nat \<Rightarrow> pystr list \<Rightarrow> table \<Rightarrow> table" where
  "fill_row row_idx row t =
     fold (\<lambda>(col_idx, cell_data). setItem row_idx col_idx cell_data) (enumerate 0 (take 6 row)) t"

definition fill_rows :: "pystr list list \<Rightarrow> table \<Rightarrow> table" where
  "fill_rows rows t = fold (\<lambda>(row_idx, row). fill_row row_idx row) (enumerate 0 rows) t"

definition load_warning :: "pystr \<Rightarrow> gui \<Rightarrow> gui" where
  "load_warning msg st =
     st\<lparr>dialogs := dialogs st @
        [Warning (lit ''Load Error'') (lit ''Failed to load results:'' @ [NL] @ msg)]\<rparr>"

definition show_rows :: "pystr list list \<Rightarrow> gui \<Rightarrow> gui" where
  "show_rows rows st =
     update_summary (length rows)
       (st\<lparr>results_table := fill_rows rows (setRowCount (length rows) (results_table st))\<rparr>)"

definition load_results :: "gui \<Rightarrow> gui" where
  "load_results st =
     (case files st ''search_results.csv'' of
        None \<Rightarrow> st
      | Some (Unreadable msg) \<Rightarrow> load_warning msg st
      | Some (Text raw) \<Rightarrow>
          (case csv_next (file_lines (universal_newlines raw)) of
             Inl e \<Rightarrow> load_warning (csv_error_str e) st
           | Inr None \<Rightarrow> show_rows [] st
           | Inr (Some (headers, rest)) \<Rightarrow>
               (case csv_list rest of
                  Inl e \<Rightarrow> load_warning (csv_error_str e) st
                | Inr rows \<Rightarrow> show_rows rows st)))"

text \<open>The labels set once by \<open>setHorizontalHeaderLabels\<close>.\<close>

definition header_labels :: "pystr list" where
  "header_labels =
     [lit ''Type'', lit ''File Path'', lit ''File Name'', lit ''Line'', lit ''Term'', lit ''Match'']"

definition row_data :: "table \<Rightarrow> nat \<Rightarrow> pystr list" where
  "row_data t row = map (\<lambda>col. cell_text (item t row col)) [0..<columnCount]"

definition csv_text :: "table \<Rightarrow> pystr" where
  "csv_text t = writerow header_labels @ concat (map (\<lambda>row. writerow (row_data t row)) [0..<rowCount t])"

text \<open>\<open>save_as_csv\<close>: the file is opened with \<open>newline=''\<close>, so it holds the text as written.\<close>

definition save_as_csv :: "string \<Rightarrow> gui \<Rightarrow> exn option \<times> gui" where
  "save_as_csv file_path st = write_file file_path (csv_text (results_table st)) st"

section \<open>Slots and the event loop\<close>

definition update_progress :: "pystr \<Rightarrow> gui \<Rightarrow> gui" where
  "update_progress message st = st\<lparr>log_output := log_output st @ [message], status_bar := message\<rparr>"

definition search_finished :: "pystr \<Rightarrow> gui \<Rightarrow> gui" where
  "search_finished output st =
     (let st1 = st\<lparr>search_btn_text := ''Start Search'',
                   search_btn_enabled := True,
                   save_btn_enabled := True,
                   progress_bar_visible := False,
                   log_output := log_output st @ [NL # output]\<rparr>;
          st2 = load_results st1
      in st2\<lparr>status_bar := lit ''Search completed'', tab_index := 0\<rparr>)"

definition search_error :: "pystr \<Rightarrow> gui \<Rightarrow> gui" where
  "search_error error st =
     st\<lparr>search_btn_text := ''Start Search'',
        search_btn_enabled := True,
        progress_bar_visible := False,
        log_output := log_output st @ [NL # lit ''ERROR: '' @ error],
        status_bar := lit ''Search failed'',
        dialogs := dialogs st @
          [Critical (lit ''Search Error'') (lit ''Search failed:'' @ [NL] @ error)]\<rparr>"

definition deliver :: "signal \<Rightarrow> gui \<Rightarrow> gui" where
  "deliver sig st =
     (case sig of
        Progress message \<Rightarrow> update_progress message st
      | Finished output \<Rightarrow> search_finished output st
      | Error error \<Rightarrow> search_error error st)"

text \<open>
  The worker thread \<open>i\<close> in two steps: \<open>run\<close> emits its signals, which are queued for the
  window's thread; then \<open>run\<close> returns and the thread stops running.
\<close>

definition worker_emit :: "nat \<Rightarrow> (pystr list \<Rightarrow> proc_outcome) \<Rightarrow> gui \<Rightarrow> gui" where
  "worker_emit i popen st =
     st\<lparr>threads := (threads st)[i := (threads st ! i)\<lparr>emitted := True\<rparr>],
        pending := pending st @ SearchThread_run (os_nt st) popen (args (threads st ! i))\<rparr>"

definition worker_exit :: "nat \<Rightarrow> gui \<Rightarrow> gui" where
  "worker_exit i st = st\<lparr>threads := (threads st)[i := (threads st ! i)\<lparr>running := False\<rparr>]\<rparr>"

text \<open>The window as \<open>__init__\<close> leaves it, on a given platform and disk.\<close>

definition initial_gui :: "bool \<Rightarrow> (string \<Rightarrow> file_content option) \<Rightarrow> (string \<Rightarrow> bool) \<Rightarrow> gui" where
  "initial_gui nt fs wp =
     \<lparr>os_nt = nt, files = fs, write_protected = wp,
      path_edit = lit ''.'', terms_edit = [], regex_edit = [],
      case_sensitive_cb = False, verbose_cb = False,
      results_table = [], log_output = [], summary_text = None,
      search_btn_text = ''Start Search'', search_btn_enabled = True, save_btn_enabled = False,
      progress_bar_visible = False, status_bar = lit ''Ready'', tab_index = 0,
      dialogs = [], threads = [], search_thread = None, pending = []\<rparr>"

text \<open>
  What can happen to the window: a start request, a running worker emitting its signals
  and then coming to its end, the delivery of the oldest queued signal, the user editing
  the input fields, a change of theme (which redraws the summary), the disk changing under
  the program (the external script writes its results, an export writes a file), and
  messages of other actions in dialogs and status bar.
\<close>

inductive reachable :: "gui \<Rightarrow> bool" where
  init: "reachable (initial_gui nt fs wp)"
| start: "reachable st \<Longrightarrow> reachable (snd (start_search st))"
| emit: "reachable st \<Longrightarrow> i < length (threads st) \<Longrightarrow> running (threads st ! i) \<Longrightarrow>
     \<not> emitted (threads st ! i) \<Longrightarrow> reachable (worker_emit i popen st)"
| exit: "reachable st \<Longrightarrow> i < length (threads st) \<Longrightarrow> running (threads st ! i) \<Longrightarrow>
     emitted (threads st ! i) \<Longrightarrow> reachable (worker_exit i st)"
| deliver: "reachable st \<Longrightarrow> pending st = sig # sigs \<Longrightarrow>
     reachable (deliver sig (st\<lparr>pending := sigs\<rparr>))"
| edit: "reachable st \<Longrightarrow>
     reachable (st\<lparr>path_edit := p, terms_edit := t, regex_edit := r,
                   case_sensitive_cb := c, verbose_cb := v\<rparr>)"
| theme: "reachable st \<Longrightarrow> rowCount (results_table st) > 0 \<Longrightarrow>
     reachable (update_summary (rowCount (results_table st)) st)"
| disk: "reachable st \<Longrightarrow> reachable (st\<lparr>files := fs, write_protected := wp\<rparr>)"
| message: "reachable st \<Longrightarrow> reachable (st\<lparr>dialogs := ds, status_bar := m\<rparr>)"

text \<open>The number of worker threads that are running.\<close>

definition running_threads :: "gui \<Rightarrow> nat" where
  "running_threads st = length (filter running (threads st))"

text \<open>The outcome signals of a search are \<open>finished\<close> and \<open>error\<close>; \<open>progress\<close> is not one.\<close>

definition is_outcome :: "signal \<Rightarrow> bool" where
  "is_outcome sig = (case sig of Progress m \<Rightarrow> False | Finished out \<Rightarrow> True | Error e \<Rightarrow> True)"

definition outcomes :: "signal list \<Rightarrow> signal list" where
  "outcomes sigs = filter is_outcome sigs"

text \<open>Every running thread object is the one \<open>search_thread\<close> refers to.\<close>

definition thread_inv :: "gui \<Rightarrow> bool" where
  "thread_inv st =
     (\<forall>i < length (threads st). running (threads st ! i) \<longrightarrow> search_thread st = Some i)"

text \<open>
  What a list file is to hold, in the words of the specification: the lines of the text box
  that are not blank, each trimmed, in their order, one per line.
\<close>

definition nonblank_lines :: "pystr \<Rightarrow> pystr list" where
  "nonblank_lines text = filter (\<lambda>l. l \<noteq> []) (map py_strip (split_nl text))"

definition one_per_line :: "pystr list \<Rightarrow> pystr" where
  "one_per_line ls = concat (map (\<lambda>l. l @ [NL]) ls)"

text \<open>
  A record of the file as a table row shows it: the first six fields, and empty texts for
  the fields that are missing.
\<close>

definition six_fields :: "pystr list \<Rightarrow> pystr list" where
  "six_fields row = take columnCount row @ replicate (columnCount - length row) []"

section \<open>Notions for the round trip\<close>

text \<open>A field as the writer puts it into the record, and the fields of a record joined.\<close>

definition quote_field :: "pystr \<Rightarrow> pystr" where
  "quote_field s = (if needs_quote s then [QUOTE] @ double_quotes s @ [QUOTE] else s)"

fun join_fields :: "pystr list \<Rightarrow> pystr" where
  "join_fields [] = []"
| "join_fields [f] = quote_field f"
| "join_fields (f # g # gs) = quote_field f @ [COMMA] @ join_fields (g # gs)"

text \<open>
  The reader working on a text rather than on its lines: after every line feed the
  end-of-line mark follows, and the record ends at the first line end that leaves the
  machine in \<open>START_RECORD\<close>.  The result is the parser state then and the text left.
\<close>

fun text_record :: "reader \<Rightarrow> pystr \<Rightarrow> csv_error + (reader \<times> pystr) option" where
  "text_record r [] = Inr None"
| "text_record r (c # cs) =
     (case parse_process_char r (Some c) of
        Inl e \<Rightarrow> Inl e
      | Inr r1 \<Rightarrow>
          if c = NL then
            (case parse_process_char r1 None of
               Inl e \<Rightarrow> Inl e
             | Inr r2 \<Rightarrow> if state r2 = START_RECORD then Inr (Some (r2, cs)) else text_record r2 cs)
          else text_record r1 cs)"

text \<open>
  The texts that a table loaded by \<open>load_results\<close> can hold: universal newlines leave no
  carriage return in what the reader sees, and the reader gives no field beyond its limit.
\<close>

definition loadable :: "pystr \<Rightarrow> bool" where
  "loadable s = (CR \<notin> set s \<and> length s \<le> field_limit)"

definition reader_ok :: "reader \<Rightarrow> bool" where
  "reader_ok r = (loadable (rfield r) \<and> (\<forall>f \<in> set (rfields r). loadable f))"

text \<open>Every text a table shows is one that \<open>load_results\<close> can have put there.\<close>

definition loadable_table :: "table \<Rightarrow> bool" where
  "loadable_table t = (\<forall>row col. loadable (cell_text (item t row col)))"

section \<open>A CSV file in the words of the specification\<close>








section \<open>Properties of Summarize\<close>

lemma count_row_None: "item t row 0 = None \<Longrightarrow> count_row t row acc = acc"
  by (simp add: count_row_def)

lemma count_row_Some:
  "item t row 0 = Some s \<Longrightarrow>
   count_row t row acc =
     (fst acc + (if is_filename s then 1 else 0), snd acc + (if is_content s then 1 else 0))"
  by (simp add: count_row_def is_filename_def is_content_def)

lemma fold_count_row:
  "fold (count_row t) [0..<n] acc =
     (fst acc + length (filter is_filename
        (concat (map (\<lambda>row. case item t row 0 of None \<Rightarrow> [] | Some s \<Rightarrow> [s]) [0..<n]))),
      snd acc + length (filter is_content
        (concat (map (\<lambda>row. case item t row 0 of None \<Rightarrow> [] | Some s \<Rightarrow> [s]) [0..<n]))))"
proof (induction n)
  case 0
  show ?case by simp
next
  case (Suc n)
  show ?case
    by (cases "item t n 0") (simp_all add: Suc count_row_None count_row_Some)
qed

lemma count_matches_first_column:
  "count_matches t =
     (length (filter is_filename (first_column t)), length (filter is_content (first_column t)))"
  by (simp add: count_matches_def first_column_def fold_count_row)

lemma first_column_length: "length (first_column t) \<le> rowCount t"
proof -
  have "length (concat (map (\<lambda>row. case item t row 0 of None \<Rightarrow> [] | Some s \<Rightarrow> [s]) [0..<n])) \<le> n"
    for n
    by (induction n) (auto split: option.splits)
  then show ?thesis by (simp add: first_column_def)
qed

lemma filename_content_disjoint:
  "length (filter is_filename xs) + length (filter is_content xs) \<le> length xs"
  by (induction xs) (auto simp: is_filename_def is_content_def)

lemma summary_counts_update_summary:
  "summary_counts (update_summary n st) =
     Some (n, length (filter is_filename (first_column (results_table st))),
           length (filter is_content (first_column (results_table st))))"
  by (simp add: summary_counts_def update_summary_def count_matches_first_column)

lemma is_filename_example: "is_filename (lit ''FileName match'')"
  by (simp add: is_filename_def lit_def)

lemma is_content_example: "is_content (lit ''Content match'')"
  by (simp add: is_content_def lit_def)

lemma not_is_content_example: "\<not> is_content (lit ''FileName match'')"
  by (simp add: is_content_def lit_def)

lemma not_is_filename_example: "\<not> is_filename (lit ''Content match'')"
  by (simp add: is_filename_def lit_def)

text \<open>
  C8.  The summary's two counters are computed from the first column alone: the number of
  its texts that contain \<open>FileName\<close>, and the number of its texts that contain
  \<open>Content\<close> but not \<open>FileName\<close>; a text with neither adds to no counter.  On a
  table whose first column reads \<open>FileName match\<close>, \<open>Content match\<close>,
  \<open>FileName match\<close> the summary for its row count reports total 3, two filename matches
  and one content match.
\<close>

theorem update_summary_scans_first_column:
  "summary_counts (update_summary n st) =
     Some (n, length (filter is_filename (first_column (results_table st))),
           length (filter is_content (first_column (results_table st))))
   \<and> (map (\<lambda>row. item (results_table st) row 0) [0..<rowCount (results_table st)] =
          [Some (lit ''FileName match''), Some (lit ''Content match''),
           Some (lit ''FileName match'')] \<longrightarrow>
        summary_counts (update_summary (rowCount (results_table st)) st) = Some (3, 2, 1))"
proof (intro conjI impI)
  show "summary_counts (update_summary n st) =
     Some (n, length (filter is_filename (first_column (results_table st))),
           length (filter is_content (first_column (results_table st))))"
    by (rule summary_counts_update_summary)
next
  assume col: "map (\<lambda>row. item (results_table st) row 0) [0..<rowCount (results_table st)] =
          [Some (lit ''FileName match''), Some (lit ''Content match''),
           Some (lit ''FileName match'')]"
  have "length (map (\<lambda>row. item (results_table st) row 0) [0..<rowCount (results_table st)]) = 3"
    by (simp only: col) simp
  then have n: "rowCount (results_table st) = 3" by simp
  have "first_column (results_table st) =
      concat (map (\<lambda>c. case c of None \<Rightarrow> [] | Some s \<Rightarrow> [s])
        (map (\<lambda>row. item (results_table st) row 0) [0..<rowCount (results_table st)]))"
    by (simp add: first_column_def comp_def)
  then have fc: "first_column (results_table st) =
      [lit ''FileName match'', lit ''Content match'', lit ''FileName match'']"
    by (simp only: col) simp
  show "summary_counts (update_summary (rowCount (results_table st)) st) = Some (3, 2, 1)"
    by (simp add: summary_counts_update_summary fc n is_filename_example is_content_example
        not_is_content_example not_is_filename_example)
qed

theorem update_summary_scans_first_column_witness:
  "map (\<lambda>row. item [[0 \<mapsto> lit ''FileName match'', 1 \<mapsto> lit ''/srv/a.txt''],
                        [0 \<mapsto> lit ''Content match''],
                        [0 \<mapsto> lit ''FileName match'']] row 0)
     [0..<rowCount [[0 \<mapsto> lit ''FileName match'', 1 \<mapsto> lit ''/srv/a.txt''],
                    [0 \<mapsto> lit ''Content match''],
                    [0 \<mapsto> lit ''FileName match'']]] =
     [Some (lit ''FileName match''), Some (lit ''Content match''), Some (lit ''FileName match'')]
   \<and> summary_counts (update_summary
         (rowCount [[0 \<mapsto> lit ''FileName match'', 1 \<mapsto> lit ''/srv/a.txt''],
                    [0 \<mapsto> lit ''Content match''],
                    [0 \<mapsto> lit ''FileName match'']])
         ((initial_gui False (\<lambda>_. None) (\<lambda>_. False))
            \<lparr>results_table := [[0 \<mapsto> lit ''FileName match'', 1 \<mapsto> lit ''/srv/a.txt''],
                               [0 \<mapsto> lit ''Content match''],
                               [0 \<mapsto> lit ''FileName match'']]\<rparr>)) = Some (3, 2, 1)"
proof -
  let ?T = "[[0 \<mapsto> lit ''FileName match'', 1 \<mapsto> lit ''/srv/a.txt''],
             [0 \<mapsto> lit ''Content match''],
             [0 \<mapsto> lit ''FileName match'']]"
  let ?S = "(initial_gui False (\<lambda>_. None) (\<lambda>_. False))\<lparr>results_table := ?T\<rparr>"
  have h: "map (\<lambda>row. item ?T row 0) [0..<rowCount ?T] =
      [Some (lit ''FileName match''), Some (lit ''Content match''), Some (lit ''FileName match'')]"
    by (simp add: rowCount_def item_def columnCount_def upt_rec)
  have t: "results_table ?S = ?T" by simp
  from update_summary_scans_first_column [of 0 ?S] h
  have "summary_counts (update_summary (rowCount ?T) ?S) = Some (3, 2, 1)"
    by (simp only: t)
  with h show ?thesis by simp
qed

section \<open>Properties of the worker\<close>

text \<open>
  C4, as the claim has it, fails: a child that exits with code zero but whose output does
  not decode gets the failure signal, not the success signal.
\<close>

theorem SearchThread_run_exit_zero_counterexample:
  "garbled_child (command False []) = Exits 0 (Undecodable (lit ''invalid start byte'')) (Decoded [])
   \<and> outcomes (SearchThread_run False garbled_child []) =
       [Error (lit ''Failed to run search: '' @ lit ''invalid start byte'')]"
  by (simp add: garbled_child_def SearchThread_run_def communicate_def outcomes_def
      is_outcome_def)

text \<open>
  C4, amended.  Whatever the child process does, \<open>run\<close> emits exactly one outcome signal
  and returns.  When \<open>communicate()\<close> returns the decoded output, the signal is \<open>finished\<close>
  with the standard output for return code zero and \<open>error\<close> with the standard error (after
  the prefix \<open>Error: \<close>) otherwise.  When \<open>Popen\<close> raises, or \<open>communicate()\<close> raises
  whatever the return code, the signal is \<open>error\<close> with the exception's message (after the
  prefix \<open>Failed to run search: \<close>).  All failures give the same kind of signal.
\<close>

theorem SearchThread_run_one_outcome:
  "length (outcomes (SearchThread_run nt popen as)) = 1
   \<and> (popen (command nt as) = Exits 0 (Decoded out) (Decoded err) \<longrightarrow>
        outcomes (SearchThread_run nt popen as) = [Finished out])
   \<and> (popen (command nt as) = Exits rc (Decoded out) (Decoded err) \<and> rc \<noteq> 0 \<longrightarrow>
        outcomes (SearchThread_run nt popen as) = [Error (lit ''Error: '' @ err)])
   \<and> (popen (command nt as) = SpawnRaises msg \<longrightarrow>
        outcomes (SearchThread_run nt popen as) = [Error (lit ''Failed to run search: '' @ msg)])
   \<and> (popen (command nt as) = Exits rc raw_out raw_err \<and> communicate raw_out raw_err = Inl msg \<longrightarrow>
        outcomes (SearchThread_run nt popen as) = [Error (lit ''Failed to run search: '' @ msg)])"
proof -
  have one: "length (outcomes (SearchThread_run nt popen as)) = 1"
  proof (cases "popen (command nt as)")
    case (SpawnRaises m)
    then show ?thesis by (simp add: SearchThread_run_def outcomes_def is_outcome_def)
  next
    case (Exits code o1 o2)
    then show ?thesis
      by (cases "communicate o1 o2")
         (auto simp: SearchThread_run_def outcomes_def is_outcome_def)
  qed
  have ok: "outcomes (SearchThread_run nt popen as) = [Finished out]"
    if "popen (command nt as) = Exits 0 (Decoded out) (Decoded err)"
    using that by (simp add: SearchThread_run_def communicate_def outcomes_def is_outcome_def)
  have bad: "outcomes (SearchThread_run nt popen as) = [Error (lit ''Error: '' @ err)]"
    if "popen (command nt as) = Exits rc (Decoded out) (Decoded err) \<and> rc \<noteq> 0"
    using that by (simp add: SearchThread_run_def communicate_def outcomes_def is_outcome_def)
  have spawn: "outcomes (SearchThread_run nt popen as) = [Error (lit ''Failed to run search: '' @ msg)]"
    if "popen (command nt as) = SpawnRaises msg"
    using that by (simp add: SearchThread_run_def outcomes_def is_outcome_def)
  have comm: "outcomes (SearchThread_run nt popen as) = [Error (lit ''Failed to run search: '' @ msg)]"
    if "popen (command nt as) = Exits rc raw_out raw_err \<and> communicate raw_out raw_err = Inl msg"
    using that by (simp add: SearchThread_run_def outcomes_def is_outcome_def)
  from one ok bad spawn comm show ?thesis by blast
qed

theorem SearchThread_run_one_outcome_witness:
  "outcomes (SearchThread_run False (\<lambda>cmd. Exits 0 (Decoded (lit ''done'')) (Decoded [])) [lit ''-c'']) =
     [Finished (lit ''done'')]
   \<and> outcomes (SearchThread_run False
         (\<lambda>cmd. Exits 2 (Decoded []) (Decoded (lit ''no such directory''))) [lit ''-c'']) =
     [Error (lit ''Error: '' @ lit ''no such directory'')]
   \<and> outcomes (SearchThread_run True (\<lambda>cmd. SpawnRaises (lit ''powershell not found'')) []) =
     [Error (lit ''Failed to run search: '' @ lit ''powershell not found'')]
   \<and> communicate (Decoded []) (Undecodable (lit ''invalid continuation byte'')) =
     Inl (lit ''invalid continuation byte'')
   \<and> outcomes (SearchThread_run False
         (\<lambda>cmd. Exits 1 (Decoded []) (Undecodable (lit ''invalid continuation byte''))) []) =
     [Error (lit ''Failed to run search: '' @ lit ''invalid continuation byte'')]"
proof -
  have c: "communicate (Decoded []) (Undecodable (lit ''invalid continuation byte'')) =
      Inl (lit ''invalid continuation byte'')"
    by (simp add: communicate_def)
  from SearchThread_run_one_outcome
      [of False "\<lambda>cmd. Exits 0 (Decoded (lit ''done'')) (Decoded [])" "[lit ''-c'']"
          "lit ''done''" "[]" 0 "[]" "Decoded []" "Decoded []"]
  have a1: "outcomes (SearchThread_run False
      (\<lambda>cmd. Exits 0 (Decoded (lit ''done'')) (Decoded [])) [lit ''-c'']) = [Finished (lit ''done'')]"
    by simp
  from SearchThread_run_one_outcome
      [of False "\<lambda>cmd. Exits 2 (Decoded []) (Decoded (lit ''no such directory''))" "[lit ''-c'']"
          "[]" "lit ''no such directory''" 2 "[]" "Decoded []" "Decoded []"]
  have a2: "outcomes (SearchThread_run False
      (\<lambda>cmd. Exits 2 (Decoded []) (Decoded (lit ''no such directory''))) [lit ''-c'']) =
      [Error (lit ''Error: '' @ lit ''no such directory'')]"
    by simp
  from SearchThread_run_one_outcome
      [of True "\<lambda>cmd. SpawnRaises (lit ''powershell not found'')" "[]" "[]" "[]" 0
          "lit ''powershell not found''" "Decoded []" "Decoded []"]
  have a3: "outcomes (SearchThread_run True (\<lambda>cmd. SpawnRaises (lit ''powershell not found'')) []) =
      [Error (lit ''Failed to run search: '' @ lit ''powershell not found'')]"
    by simp
  from SearchThread_run_one_outcome
      [of False "\<lambda>cmd. Exits 1 (Decoded []) (Undecodable (lit ''invalid continuation byte''))" "[]"
          "[]" "[]" 1 "lit ''invalid continuation byte''" "Decoded []"
          "Undecodable (lit ''invalid continuation byte'')"] c
  have a4: "outcomes (SearchThread_run False
      (\<lambda>cmd. Exits 1 (Decoded []) (Undecodable (lit ''invalid continuation byte''))) []) =
      [Error (lit ''Failed to run search: '' @ lit ''invalid continuation byte'')]"
    by simp
  from a1 a2 a3 c a4 show ?thesis by blast
qed

section \<open>Properties of Load\<close>

lemma count_matches_Nil: "count_matches [] = (0, 0)"
  by (simp add: count_matches_def rowCount_def)

lemma show_rows_Nil:
  "results_table (show_rows [] st) = [] \<and> summary_counts (show_rows [] st) = Some (0, 0, 0)
   \<and> dialogs (show_rows [] st) = dialogs st"
  by (simp add: show_rows_def update_summary_def summary_counts_def fill_rows_def
      setRowCount_def count_matches_Nil)

lemma csv_list_Nil: "csv_list [] = Inr []"
  by (subst csv_list.simps) (simp add: csv_next_def parse_reset_def)

text \<open>
  C7.  Without a file \<open>search_results.csv\<close>, \<open>load_results\<close> changes nothing: the window's
  state is as before, so no dialog is shown, and the table that \<open>clear_results\<close> has
  emptied stays empty.
\<close>

theorem load_results_absent:
  "files st ''search_results.csv'' = None \<Longrightarrow>
   load_results st = st
   \<and> results_table (load_results (clear_results st)) = []
   \<and> dialogs (load_results (clear_results st)) = dialogs st"
  by (simp add: load_results_def clear_results_def setRowCount_def)

theorem load_results_absent_witness:
  "files (initial_gui False (\<lambda>name. None) (\<lambda>name. False)) ''search_results.csv'' = None
   \<and> load_results (initial_gui False (\<lambda>name. None) (\<lambda>name. False)) =
       initial_gui False (\<lambda>name. None) (\<lambda>name. False)
   \<and> results_table (load_results (clear_results (initial_gui False (\<lambda>name. None) (\<lambda>name. False)))) = []"
  using load_results_absent [of "initial_gui False (\<lambda>name. None) (\<lambda>name. False)"]
  by (simp add: initial_gui_def)

text \<open>
  C10.  An empty \<open>search_results.csv\<close> is loaded without a warning: the reader has no
  header to give, the table gets zero rows and the summary reports total 0.  The same
  holds for a file whose only record is the header.
\<close>

theorem load_results_empty_file:
  "csv_next (file_lines (universal_newlines [])) = Inr None
   \<and> (files st ''search_results.csv'' = Some (Text []) \<longrightarrow>
      results_table (load_results st) = [] \<and> summary_counts (load_results st) = Some (0, 0, 0)
      \<and> dialogs (load_results st) = dialogs st)
   \<and> (files st ''search_results.csv'' = Some (Text raw)
        \<and> csv_next (file_lines (universal_newlines raw)) = Inr (Some (headers, [])) \<longrightarrow>
      results_table (load_results st) = [] \<and> summary_counts (load_results st) = Some (0, 0, 0)
      \<and> dialogs (load_results st) = dialogs st)"
proof -
  have shown: "results_table (show_rows [] st) = [] \<and> summary_counts (show_rows [] st) = Some (0, 0, 0)
      \<and> dialogs (show_rows [] st) = dialogs st"
    by (rule show_rows_Nil)
  have empty: "load_results st = show_rows [] st"
    if "files st ''search_results.csv'' = Some (Text [])"
    using that by (simp add: load_results_def csv_next_def parse_reset_def)
  have header: "load_results st = show_rows [] st"
    if "files st ''search_results.csv'' = Some (Text raw)
        \<and> csv_next (file_lines (universal_newlines raw)) = Inr (Some (headers, []))"
    using that by (simp add: load_results_def csv_list_Nil)
  have none: "csv_next (file_lines (universal_newlines [])) = Inr None"
    by (simp add: csv_next_def parse_reset_def)
  from shown empty header have "(files st ''search_results.csv'' = Some (Text []) \<longrightarrow>
      results_table (load_results st) = [] \<and> summary_counts (load_results st) = Some (0, 0, 0)
      \<and> dialogs (load_results st) = dialogs st)
   \<and> (files st ''search_results.csv'' = Some (Text raw)
        \<and> csv_next (file_lines (universal_newlines raw)) = Inr (Some (headers, [])) \<longrightarrow>
      results_table (load_results st) = [] \<and> summary_counts (load_results st) = Some (0, 0, 0)
      \<and> dialogs (load_results st) = dialogs st)"
    by metis
  with none show ?thesis by (rule conjI)
qed

theorem load_results_empty_file_witness:
  "files (initial_gui False (\<lambda>name. Some (Text [])) (\<lambda>name. False)) ''search_results.csv'' =
     Some (Text [])
   \<and> results_table (load_results (initial_gui False (\<lambda>name. Some (Text [])) (\<lambda>name. False))) = []
   \<and> summary_counts (load_results (initial_gui False (\<lambda>name. Some (Text [])) (\<lambda>name. False))) =
       Some (0, 0, 0)
   \<and> csv_next (file_lines (universal_newlines
         (lit ''Type,FilePath,FileName,Line,Term,Match'' @ [NL]))) =
       Inr (Some ([lit ''Type'', lit ''FilePath'', lit ''FileName'', lit ''Line'', lit ''Term'',
                   lit ''Match''], []))
   \<and> results_table (load_results (initial_gui False
         (\<lambda>name. Some (Text (lit ''Type,FilePath,FileName,Line,Term,Match'' @ [NL])))
         (\<lambda>name. False))) = []"
proof -
  let ?E = "initial_gui False (\<lambda>name. Some (Text [])) (\<lambda>name. False)"
  let ?raw = "lit ''Type,FilePath,FileName,Line,Term,Match'' @ [NL]"
  let ?hs = "[lit ''Type'', lit ''FilePath'', lit ''FileName'', lit ''Line'', lit ''Term'',
              lit ''Match'']"
  let ?H = "initial_gui False (\<lambda>name. Some (Text ?raw)) (\<lambda>name. False)"
  have e: "files ?E ''search_results.csv'' = Some (Text [])"
    by (simp add: initial_gui_def)
  have h1: "files ?H ''search_results.csv'' = Some (Text ?raw)"
    by (simp add: initial_gui_def)
  have h2: "csv_next (file_lines (universal_newlines ?raw)) = Inr (Some (?hs, []))"
    by (simp add: lit_def NL_def CR_def COMMA_def QUOTE_def csv_next_def parse_reset_def
        feed_line_def parse_process_char_def start_field_def add_char_to_def parse_add_char_def
        field_limit_def parse_save_field_def end_record_def)
  from load_results_empty_file [of ?E] e
  have r1: "results_table (load_results ?E) = [] \<and> summary_counts (load_results ?E) = Some (0, 0, 0)"
    by blast
  from load_results_empty_file [of ?H ?raw ?hs] h1 h2
  have r2: "results_table (load_results ?H) = []"
    by blast
  from e r1 h2 r2 show ?thesis by blast
qed

section \<open>Properties of the list files\<close>

lemma prepare_list_file_blank:
  "py_strip box = [] \<Longrightarrow> prepare_list_file name box st = (None, st)"
  by (simp add: prepare_list_file_def)

lemma prepare_list_file_other:
  "n \<noteq> name \<Longrightarrow> files (snd (prepare_list_file name box st)) n = files st n"
  by (simp add: prepare_list_file_def write_file_def Let_def)

lemma prepare_list_file_frame:
  "terms_edit (snd (prepare_list_file name box st)) = terms_edit st
   \<and> regex_edit (snd (prepare_list_file name box st)) = regex_edit st
   \<and> os_nt (snd (prepare_list_file name box st)) = os_nt st
   \<and> write_protected (snd (prepare_list_file name box st)) = write_protected st
   \<and> threads (snd (prepare_list_file name box st)) = threads st
   \<and> search_thread (snd (prepare_list_file name box st)) = search_thread st
   \<and> pending (snd (prepare_list_file name box st)) = pending st
   \<and> results_table (snd (prepare_list_file name box st)) = results_table st"
  by (simp add: prepare_list_file_def write_file_def Let_def)

lemma prepare_search_files_cases:
  "prepare_search_files st =
     (if fst (prepare_list_file ''.terms_list'' (terms_edit st) st) \<noteq> None
      then prepare_list_file ''.terms_list'' (terms_edit st) st
      else prepare_list_file ''.regex_list'' (regex_edit st)
             (snd (prepare_list_file ''.terms_list'' (terms_edit st) st)))"
proof (cases "prepare_list_file ''.terms_list'' (terms_edit st) st")
  case (Pair e b)
  have "regex_edit (snd (prepare_list_file ''.terms_list'' (terms_edit st) st)) = regex_edit st"
    by (simp add: prepare_list_file_frame)
  with Pair have "regex_edit b = regex_edit st" by simp
  with Pair show ?thesis
    by (cases e) (simp_all add: prepare_search_files_def)
qed

lemma prepare_search_files_frame:
  "threads (snd (prepare_search_files st)) = threads st
   \<and> search_thread (snd (prepare_search_files st)) = search_thread st
   \<and> pending (snd (prepare_search_files st)) = pending st
   \<and> results_table (snd (prepare_search_files st)) = results_table st"
  by (simp add: prepare_search_files_cases prepare_list_file_frame)

lemma start_search_files:
  "files (snd (start_search st)) n =
     (if thread_is_running st then files st n else files (snd (prepare_search_files st)) n)"
  by (cases "prepare_search_files st")
     (auto simp: start_search_def Let_def clear_results_def split: option.splits)

lemma prepare_search_files_terms_blank:
  "py_strip (terms_edit st) = [] \<Longrightarrow>
   files (snd (prepare_search_files st)) ''.terms_list'' = files st ''.terms_list''"
  by (simp add: prepare_search_files_cases prepare_list_file_blank prepare_list_file_other)

lemma prepare_search_files_regex_blank:
  "py_strip (regex_edit st) = [] \<Longrightarrow>
   files (snd (prepare_search_files st)) ''.regex_list'' = files st ''.regex_list''"
  by (simp add: prepare_search_files_cases prepare_list_file_blank prepare_list_file_other
      prepare_list_file_frame)

text \<open>
  C6.  With a terms box that is blank after trimming, neither \<open>prepare_search_files\<close> nor
  the whole of \<open>start_search\<close> touches \<open>.terms_list\<close>: what was on disk before is on disk
  afterwards.  Likewise for the regex box and \<open>.regex_list\<close>.
\<close>

theorem blank_box_keeps_list_file:
  "(py_strip (terms_edit st) = [] \<longrightarrow>
      files (snd (prepare_search_files st)) ''.terms_list'' = files st ''.terms_list''
      \<and> files (snd (start_search st)) ''.terms_list'' = files st ''.terms_list'')
   \<and> (py_strip (regex_edit st) = [] \<longrightarrow>
      files (snd (prepare_search_files st)) ''.regex_list'' = files st ''.regex_list''
      \<and> files (snd (start_search st)) ''.regex_list'' = files st ''.regex_list'')"
  by (simp add: start_search_files prepare_search_files_terms_blank
      prepare_search_files_regex_blank)

theorem blank_box_keeps_list_file_witness:
  "py_strip (terms_edit ((initial_gui False [''.terms_list'' \<mapsto> Text (lit ''old'')] (\<lambda>name. False))
       \<lparr>terms_edit := [32, NL]\<rparr>)) = []
   \<and> files (snd (start_search ((initial_gui False [''.terms_list'' \<mapsto> Text (lit ''old'')]
         (\<lambda>name. False))\<lparr>terms_edit := [32, NL]\<rparr>))) ''.terms_list'' = Some (Text (lit ''old''))
   \<and> py_strip (regex_edit ((initial_gui False [''.terms_list'' \<mapsto> Text (lit ''old'')]
         (\<lambda>name. False))\<lparr>terms_edit := [32, NL]\<rparr>)) = []
   \<and> files (snd (start_search ((initial_gui False [''.terms_list'' \<mapsto> Text (lit ''old'')]
         (\<lambda>name. False))\<lparr>terms_edit := [32, NL]\<rparr>))) ''.regex_list'' = None"
proof -
  let ?S = "(initial_gui False [''.terms_list'' \<mapsto> Text (lit ''old'')] (\<lambda>name. False))
       \<lparr>terms_edit := [32, NL]\<rparr>"
  have t: "py_strip (terms_edit ?S) = []"
    by (simp add: py_strip_def py_lstrip_def py_rstrip_def py_isspace_def NL_def)
  have r: "py_strip (regex_edit ?S) = []"
    by (simp add: py_strip_def py_lstrip_def py_rstrip_def initial_gui_def)
  have f: "files ?S ''.terms_list'' = Some (Text (lit ''old'')) \<and> files ?S ''.regex_list'' = None"
    by (simp add: initial_gui_def)
  from blank_box_keeps_list_file [of ?S] t r f
  have "files (snd (start_search ?S)) ''.terms_list'' = Some (Text (lit ''old''))
      \<and> files (snd (start_search ?S)) ''.regex_list'' = None"
    by metis
  with t r show ?thesis by blast
qed

section \<open>At most one search in flight\<close>

lemma start_search_running: "thread_is_running st \<Longrightarrow> start_search st = (None, st)"
  by (simp add: start_search_def)

lemma start_search_threads:
  "threads (snd (start_search st)) =
     (if thread_is_running st \<or> fst (prepare_search_files st) \<noteq> None then threads st
      else threads st @
        [\<lparr>running = True, emitted = False, args = build_args (snd (prepare_search_files st))\<rparr>])"
proof (cases "prepare_search_files st")
  case (Pair e st1)
  have "threads (snd (prepare_search_files st)) = threads st"
    by (simp add: prepare_search_files_frame)
  with Pair have "threads st1 = threads st" by simp
  with Pair show ?thesis
    by (cases e) (simp_all add: start_search_def Let_def clear_results_def)
qed

lemma start_search_search_thread:
  "search_thread (snd (start_search st)) =
     (if thread_is_running st \<or> fst (prepare_search_files st) \<noteq> None then search_thread st
      else Some (length (threads st)))"
proof (cases "prepare_search_files st")
  case (Pair e st1)
  have "threads (snd (prepare_search_files st)) = threads st
      \<and> search_thread (snd (prepare_search_files st)) = search_thread st"
    by (simp add: prepare_search_files_frame)
  with Pair have "threads st1 = threads st \<and> search_thread st1 = search_thread st" by simp
  with Pair show ?thesis
    by (cases e) (simp_all add: start_search_def Let_def clear_results_def)
qed

lemma thread_inv_idle:
  assumes "thread_inv st" and "\<not> thread_is_running st" and "i < length (threads st)"
  shows "\<not> running (threads st ! i)"
proof
  assume run: "running (threads st ! i)"
  with assms have "search_thread st = Some i" by (simp add: thread_inv_def)
  with run assms(3) have "thread_is_running st" by (simp add: thread_is_running_def)
  with assms(2) show False by contradiction
qed

lemma thread_inv_start_search:
  assumes "thread_inv st"
  shows "thread_inv (snd (start_search st))"
proof (cases "thread_is_running st \<or> fst (prepare_search_files st) \<noteq> None")
  case True
  with assms show ?thesis
    by (simp add: thread_inv_def start_search_threads start_search_search_thread)
next
  case False
  then have idle: "\<not> thread_is_running st" by simp
  show ?thesis
    unfolding thread_inv_def
  proof (intro allI impI)
    fix i
    assume i: "i < length (threads (snd (start_search st)))"
      and run: "running (threads (snd (start_search st)) ! i)"
    show "search_thread (snd (start_search st)) = Some i"
    proof (cases "i < length (threads st)")
      case True
      with run False have "running (threads st ! i)"
        by (simp add: start_search_threads nth_append)
      with thread_inv_idle [OF assms idle True] show ?thesis by contradiction
    next
      case False
      with i \<open>\<not> (thread_is_running st \<or> fst (prepare_search_files st) \<noteq> None)\<close>
      have "i = length (threads st)" by (simp add: start_search_threads)
      with \<open>\<not> (thread_is_running st \<or> fst (prepare_search_files st) \<noteq> None)\<close>
      show ?thesis by (simp add: start_search_search_thread)
    qed
  qed
qed

lemma load_results_threads:
  "threads (load_results st) = threads st \<and> search_thread (load_results st) = search_thread st"
  by (simp add: load_results_def load_warning_def show_rows_def update_summary_def
      split: option.splits file_content.splits sum.splits prod.splits)

lemma deliver_threads:
  "threads (deliver sig st) = threads st \<and> search_thread (deliver sig st) = search_thread st"
  by (cases sig)
     (simp_all add: deliver_def update_progress_def search_finished_def search_error_def
        Let_def load_results_threads)

lemma thread_inv_worker_emit: "thread_inv st \<Longrightarrow> thread_inv (worker_emit i popen st)"
  unfolding thread_inv_def
proof (intro allI impI)
  fix j
  assume inv: "\<forall>i < length (threads st). running (threads st ! i) \<longrightarrow> search_thread st = Some i"
    and j: "j < length (threads (worker_emit i popen st))"
    and run: "running (threads (worker_emit i popen st) ! j)"
  from j have j': "j < length (threads st)" by (simp add: worker_emit_def)
  with run have "running (threads st ! j)"
    by (cases "j = i") (simp_all add: worker_emit_def)
  with inv j' have "search_thread st = Some j" by simp
  then show "search_thread (worker_emit i popen st) = Some j" by (simp add: worker_emit_def)
qed

lemma thread_inv_worker_exit: "thread_inv st \<Longrightarrow> thread_inv (worker_exit i st)"
  unfolding thread_inv_def
proof (intro allI impI)
  fix j
  assume inv: "\<forall>i < length (threads st). running (threads st ! i) \<longrightarrow> search_thread st = Some i"
    and j: "j < length (threads (worker_exit i st))"
    and run: "running (threads (worker_exit i st) ! j)"
  from j have j': "j < length (threads st)" by (simp add: worker_exit_def)
  with run have "running (threads st ! j)"
    by (cases "j = i") (simp_all add: worker_exit_def)
  with inv j' have "search_thread st = Some j" by simp
  then show "search_thread (worker_exit i st) = Some j" by (simp add: worker_exit_def)
qed

lemma thread_inv_reachable: "reachable st \<Longrightarrow> thread_inv st"
proof (induction rule: reachable.induct)
  case (init nt fs wp)
  show ?case by (simp add: thread_inv_def initial_gui_def)
next
  case (start st)
  then show ?case by (simp add: thread_inv_start_search)
next
  case (emit st i popen)
  from emit.IH show ?case by (rule thread_inv_worker_emit)
next
  case (exit st i)
  from exit.IH show ?case by (rule thread_inv_worker_exit)
next
  case (deliver st sig sigs)
  then show ?case by (simp add: thread_inv_def deliver_threads)
next
  case (edit st p t r c v)
  then show ?case by (simp add: thread_inv_def)
next
  case (theme st)
  then show ?case by (simp add: thread_inv_def update_summary_def)
next
  case (disk st fs wp)
  then show ?case by (simp add: thread_inv_def)
next
  case (message st ds m)
  then show ?case by (simp add: thread_inv_def)
qed

lemma one_index_filter:
  "(\<forall>i < length ws. P (ws ! i) \<longrightarrow> i = k) \<Longrightarrow> length (filter P ws) \<le> 1"
proof (induction ws arbitrary: k)
  case Nil
  show ?case by simp
next
  case (Cons w ws)
  show ?case
  proof (cases "P w")
    case True
    with Cons.prems have k: "k = 0" by auto
    have "\<not> P x" if "x \<in> set ws" for x
    proof
      assume "P x"
      from that obtain j where "j < length ws" "ws ! j = x" by (auto simp: in_set_conv_nth)
      with \<open>P x\<close> Cons.prems [rule_format, of "Suc j"] k show False by simp
    qed
    then have "filter P ws = []" by (simp add: filter_empty_conv)
    with True show ?thesis by simp
  next
    case False
    have "\<forall>i < length ws. P (ws ! i) \<longrightarrow> i = k - 1"
    proof (intro allI impI)
      fix i assume "i < length ws" "P (ws ! i)"
      with Cons.prems [rule_format, of "Suc i"] show "i = k - 1" by simp
    qed
    then have "length (filter P ws) \<le> 1" by (rule Cons.IH)
    with False show ?thesis by simp
  qed
qed

lemma thread_inv_running_threads: "thread_inv st \<Longrightarrow> running_threads st \<le> 1"
proof -
  assume inv: "thread_inv st"
  show ?thesis
  proof (cases "search_thread st")
    case None
    with inv have "\<forall>i < length (threads st). running (threads st ! i) \<longrightarrow> i = 0"
      by (simp add: thread_inv_def)
    then show ?thesis unfolding running_threads_def by (rule one_index_filter)
  next
    case (Some k)
    with inv have "\<forall>i < length (threads st). running (threads st ! i) \<longrightarrow> i = k"
      by (auto simp: thread_inv_def)
    then show ?thesis unfolding running_threads_def by (rule one_index_filter)
  qed
qed

text \<open>
  C5.  While the thread that \<open>search_thread\<close> refers to is running, \<open>start_search\<close> returns
  at once: the state is the one before, so no thread object is created, no file written,
  the results are not cleared, and what the running search delivers later meets the same
  window.  Hence in every state the window can reach, at most one worker thread is running.
\<close>

theorem start_search_while_running:
  "(thread_is_running st \<longrightarrow> start_search st = (None, st))
   \<and> (reachable st \<longrightarrow> running_threads st \<le> 1 \<and> running_threads (snd (start_search st)) \<le> 1)"
proof (intro conjI impI)
  assume "thread_is_running st"
  then show "start_search st = (None, st)" by (rule start_search_running)
next
  assume "reachable st"
  then have "thread_inv st" by (rule thread_inv_reachable)
  then show "running_threads st \<le> 1" by (rule thread_inv_running_threads)
next
  assume "reachable st"
  then have "reachable (snd (start_search st))" by (rule reachable.start)
  then have "thread_inv (snd (start_search st))" by (rule thread_inv_reachable)
  then show "running_threads (snd (start_search st)) \<le> 1" by (rule thread_inv_running_threads)
qed

theorem start_search_while_running_witness:
  "thread_is_running ((initial_gui False (\<lambda>name. None) (\<lambda>name. False))
       \<lparr>threads := [\<lparr>running = True, emitted = False, args = []\<rparr>], search_thread := Some 0\<rparr>)
   \<and> start_search ((initial_gui False (\<lambda>name. None) (\<lambda>name. False))
       \<lparr>threads := [\<lparr>running = True, emitted = False, args = []\<rparr>], search_thread := Some 0\<rparr>) =
     (None, (initial_gui False (\<lambda>name. None) (\<lambda>name. False))
       \<lparr>threads := [\<lparr>running = True, emitted = False, args = []\<rparr>], search_thread := Some 0\<rparr>)
   \<and> reachable (snd (start_search (initial_gui False (\<lambda>name. None) (\<lambda>name. False))))
   \<and> running_threads (snd (start_search (snd (start_search
         (initial_gui False (\<lambda>name. None) (\<lambda>name. False)))))) \<le> 1"
proof -
  let ?I = "initial_gui False (\<lambda>name. None) (\<lambda>name. False)"
  let ?W = "?I\<lparr>threads := [\<lparr>running = True, emitted = False, args = []\<rparr>], search_thread := Some 0\<rparr>"
  have w: "thread_is_running ?W" by (simp add: thread_is_running_def)
  have r: "reachable (snd (start_search ?I))" by (rule reachable.start) (rule reachable.init)
  from start_search_while_running [of ?W] w have "start_search ?W = (None, ?W)" by blast
  moreover from start_search_while_running [of "snd (start_search ?I)"] r
  have "running_threads (snd (start_search (snd (start_search ?I)))) \<le> 1" by blast
  ultimately show ?thesis using w r by blast
qed

section \<open>What the list files hold\<close>

lemma fold_write_line:
  "fold write_line ls buf = buf @ one_per_line (filter (\<lambda>l. l \<noteq> []) (map py_strip ls))"
  by (induction ls arbitrary: buf) (simp_all add: write_line_def one_per_line_def Let_def)

lemma list_file_text_lines: "list_file_text text = one_per_line (nonblank_lines text)"
  by (simp add: list_file_text_def nonblank_lines_def fold_write_line)

lemma split_nl_not_Nil: "split_nl s \<noteq> []"
  by (induction s) (simp_all split: list.splits)

lemma py_rstrip_Nil: "py_rstrip [] = []"
  by (simp add: py_rstrip_def)

lemma py_rstrip_snoc: "py_rstrip (s @ [c]) = (if py_isspace c then py_rstrip s else s @ [c])"
  by (simp add: py_rstrip_def)

lemma py_strip_Nil: "py_strip [] = []"
  by (simp add: py_strip_def py_lstrip_def py_rstrip_def)

lemma py_strip_Cons_space: "py_isspace c \<Longrightarrow> py_strip (c # s) = py_strip s"
  by (simp add: py_strip_def py_lstrip_def)

lemma py_strip_snoc_space:
  assumes "py_isspace c"
  shows "py_strip (s @ [c]) = py_strip s"
proof (cases "\<forall>x \<in> set s. py_isspace x")
  case True
  with assms have "dropWhile py_isspace (s @ [c]) = []" and "dropWhile py_isspace s = []"
    by (simp_all add: dropWhile_eq_Nil_conv)
  then show ?thesis by (simp only: py_strip_def py_lstrip_def)
next
  case False
  then obtain x where "x \<in> set s" "\<not> py_isspace x" by blast
  then have "dropWhile py_isspace (s @ [c]) = dropWhile py_isspace s @ [c]"
    by (rule dropWhile_append1)
  with assms show ?thesis by (simp add: py_strip_def py_lstrip_def py_rstrip_snoc)
qed

lemma nonblank_lines_Cons_space:
  assumes "py_isspace c"
  shows "nonblank_lines (c # s) = nonblank_lines s"
proof (cases "c = NL")
  case True
  then show ?thesis by (simp add: nonblank_lines_def py_strip_Nil)
next
  case False
  obtain l ls where ls: "split_nl s = l # ls"
    using split_nl_not_Nil [of s] by (cases "split_nl s") auto
  with False assms show ?thesis
    by (simp add: nonblank_lines_def py_strip_Cons_space)
qed

lemma nonblank_lines_lstrip: "nonblank_lines (py_lstrip s) = nonblank_lines s"
  by (induction s) (simp_all add: py_lstrip_def nonblank_lines_Cons_space)

lemma split_nl_snoc:
  "split_nl (s @ [c]) =
     (if c = NL then split_nl s @ [[]]
      else butlast (split_nl s) @ [last (split_nl s) @ [c]])"
proof (induction s)
  case Nil
  show ?case by simp
next
  case (Cons d s)
  obtain l ls where ls: "split_nl s = l # ls"
    using split_nl_not_Nil [of s] by (cases "split_nl s") auto
  with Cons show ?case
    by (cases ls) (auto split: list.splits)
qed

lemma nonblank_lines_snoc_space:
  assumes "py_isspace c"
  shows "nonblank_lines (s @ [c]) = nonblank_lines s"
proof (cases "c = NL")
  case True
  then show ?thesis by (simp add: nonblank_lines_def split_nl_snoc py_strip_Nil)
next
  case False
  have "split_nl s = butlast (split_nl s) @ [last (split_nl s)]"
    by (simp add: split_nl_not_Nil)
  then have "nonblank_lines s =
      filter (\<lambda>l. l \<noteq> []) (map py_strip (butlast (split_nl s) @ [last (split_nl s)]))"
    by (simp add: nonblank_lines_def)
  with False assms show ?thesis
    by (simp add: nonblank_lines_def split_nl_snoc py_strip_snoc_space)
qed

lemma nonblank_lines_rstrip: "nonblank_lines (py_rstrip s) = nonblank_lines s"
  by (induction s rule: rev_induct)
     (simp_all add: py_rstrip_Nil py_rstrip_snoc nonblank_lines_snoc_space)

lemma nonblank_lines_strip: "nonblank_lines (py_strip s) = nonblank_lines s"
  by (simp add: py_strip_def nonblank_lines_rstrip nonblank_lines_lstrip)

lemma prepare_list_file_written:
  "py_strip box \<noteq> [] \<Longrightarrow> fst (prepare_list_file name box st) = None \<Longrightarrow>
   files (snd (prepare_list_file name box st)) name =
     Some (Text (os_linesep (os_nt st) (one_per_line (nonblank_lines box))))"
  by (simp add: prepare_list_file_def write_file_def Let_def list_file_text_lines
      nonblank_lines_strip split: if_splits)

text \<open>
  C3.  When \<open>prepare_search_files\<close> raises nothing and the terms box is not blank after
  trimming, \<open>.terms_list\<close> afterwards holds exactly the lines of the box that are not blank,
  each trimmed, in their order, each followed by the platform's line end, whatever the
  file held before.  The same for the regex box and \<open>.regex_list\<close>.
\<close>

theorem prepare_search_files_writes_lines:
  "fst (prepare_search_files st) = None \<Longrightarrow>
   (py_strip (terms_edit st) \<noteq> [] \<longrightarrow>
      files (snd (prepare_search_files st)) ''.terms_list'' =
        Some (Text (os_linesep (os_nt st) (one_per_line (nonblank_lines (terms_edit st))))))
   \<and> (py_strip (regex_edit st) \<noteq> [] \<longrightarrow>
      files (snd (prepare_search_files st)) ''.regex_list'' =
        Some (Text (os_linesep (os_nt st) (one_per_line (nonblank_lines (regex_edit st))))))"
proof -
  let ?t = "prepare_list_file ''.terms_list'' (terms_edit st) st"
  let ?r = "prepare_list_file ''.regex_list'' (regex_edit st) (snd ?t)"
  assume ok: "fst (prepare_search_files st) = None"
  then have t_ok: "fst ?t = None"
    by (simp add: prepare_search_files_cases split: if_splits)
  with ok have r_ok: "fst ?r = None" and eq: "prepare_search_files st = ?r"
    by (simp_all add: prepare_search_files_cases)
  have nt: "os_nt (snd ?t) = os_nt st" by (simp add: prepare_list_file_frame)
  have "files (snd ?r) ''.terms_list'' = files (snd ?t) ''.terms_list''"
    by (simp add: prepare_list_file_other)
  with t_ok have terms: "py_strip (terms_edit st) \<noteq> [] \<longrightarrow>
      files (snd ?r) ''.terms_list'' =
        Some (Text (os_linesep (os_nt st) (one_per_line (nonblank_lines (terms_edit st)))))"
    by (simp add: prepare_list_file_written)
  from r_ok nt have regex: "py_strip (regex_edit st) \<noteq> [] \<longrightarrow>
      files (snd ?r) ''.regex_list'' =
        Some (Text (os_linesep (os_nt st) (one_per_line (nonblank_lines (regex_edit st)))))"
    by (simp add: prepare_list_file_written)
  from terms regex eq show ?thesis by simp
qed

theorem prepare_search_files_writes_lines_witness:
  "fst (prepare_search_files ((initial_gui False [''.terms_list'' \<mapsto> Text (lit ''stale'')]
       (\<lambda>name. False))\<lparr>terms_edit := lit ''  foo '' @ [NL, NL] @ lit ''bar'' @ [NL],
                         regex_edit := lit ''a+''\<rparr>)) = None
   \<and> py_strip (lit ''  foo '' @ [NL, NL] @ lit ''bar'' @ [NL]) \<noteq> []
   \<and> files (snd (prepare_search_files ((initial_gui False [''.terms_list'' \<mapsto> Text (lit ''stale'')]
       (\<lambda>name. False))\<lparr>terms_edit := lit ''  foo '' @ [NL, NL] @ lit ''bar'' @ [NL],
                         regex_edit := lit ''a+''\<rparr>))) ''.terms_list'' =
       Some (Text (lit ''foo'' @ [NL] @ lit ''bar'' @ [NL]))
   \<and> py_strip (lit ''a+'') \<noteq> []
   \<and> files (snd (prepare_search_files ((initial_gui False [''.terms_list'' \<mapsto> Text (lit ''stale'')]
       (\<lambda>name. False))\<lparr>terms_edit := lit ''  foo '' @ [NL, NL] @ lit ''bar'' @ [NL],
                         regex_edit := lit ''a+''\<rparr>))) ''.regex_list'' =
       Some (Text (lit ''a+'' @ [NL]))"
proof -
  let ?T = "lit ''  foo '' @ [NL, NL] @ lit ''bar'' @ [NL]"
  let ?S = "(initial_gui False [''.terms_list'' \<mapsto> Text (lit ''stale'')] (\<lambda>name. False))
       \<lparr>terms_edit := ?T, regex_edit := lit ''a+''\<rparr>"
  have fields: "terms_edit ?S = ?T \<and> regex_edit ?S = lit ''a+'' \<and> os_nt ?S = False"
    by (simp add: initial_gui_def)
  have t: "py_strip ?T \<noteq> []"
    by (simp add: py_strip_def py_lstrip_def py_rstrip_def py_isspace_def NL_def lit_def)
  have r: "py_strip (lit ''a+'') \<noteq> []"
    by (simp add: py_strip_def py_lstrip_def py_rstrip_def py_isspace_def lit_def)
  have ok: "fst (prepare_search_files ?S) = None"
    by (simp add: prepare_search_files_cases prepare_list_file_def write_file_def Let_def
        initial_gui_def)
  have lt: "one_per_line (nonblank_lines ?T) = lit ''foo'' @ [NL] @ lit ''bar'' @ [NL]"
    by (simp add: one_per_line_def nonblank_lines_def py_strip_def py_lstrip_def py_rstrip_def
        py_isspace_def NL_def lit_def)
  have lr: "one_per_line (nonblank_lines (lit ''a+'')) = lit ''a+'' @ [NL]"
    by (simp add: one_per_line_def nonblank_lines_def py_strip_def py_lstrip_def py_rstrip_def
        py_isspace_def NL_def lit_def)
  from prepare_search_files_writes_lines [OF ok] t r
  have "files (snd (prepare_search_files ?S)) ''.terms_list'' = Some (Text (lit ''foo'' @ [NL] @ lit ''bar'' @ [NL]))
      \<and> files (snd (prepare_search_files ?S)) ''.regex_list'' = Some (Text (lit ''a+'' @ [NL]))"
    by (simp only: fields lt lr os_linesep_def if_False) simp
  with ok t r show ?thesis by blast
qed

section \<open>Filling the table\<close>

lemma length_setRowCount: "length (setRowCount n t) = n"
  by (simp add: setRowCount_def)

lemma length_setItem: "length (setItem row col txt t) = length t"
  by (simp add: setItem_def)

lemma item_setRowCount_Nil: "item (setRowCount n []) i j = None"
  by (simp add: setRowCount_def item_def)

lemma item_setItem:
  "item (setItem row col txt t) i j =
     (if i = row \<and> j = col \<and> row < length t \<and> col < columnCount then Some txt
      else item t i j)"
  by (auto simp: setItem_def item_def nth_list_update)

lemma fold_setItem_length:
  "length (fold (\<lambda>(col_idx, cell_data). setItem row col_idx cell_data) cs t) = length t"
  by (induction cs arbitrary: t) (auto simp: length_setItem)

lemma fold_setItem_item:
  "item (fold (\<lambda>(col_idx, cell_data). setItem row col_idx cell_data) (enumerate k xs) t) i j =
     (if i = row \<and> row < length t \<and> k \<le> j \<and> j < k + length xs \<and> j < columnCount
      then Some (xs ! (j - k)) else item t i j)"
proof (induction xs arbitrary: k t)
  case Nil
  show ?case by auto
next
  case (Cons x xs)
  have step: "item (fold (\<lambda>(col_idx, cell_data). setItem row col_idx cell_data)
        (enumerate k (x # xs)) t) i j =
      (if i = row \<and> row < length t \<and> Suc k \<le> j \<and> j < Suc k + length xs \<and> j < columnCount
       then Some (xs ! (j - Suc k)) else item (setItem row k x t) i j)"
    by (simp add: Cons length_setItem)
  have nth: "(x # xs) ! (j - k) = xs ! (j - Suc k)" if "Suc k \<le> j"
  proof -
    from that have "j - k = Suc (j - Suc k)" by simp
    then show ?thesis by simp
  qed
  show ?case
    unfolding step item_setItem
    by (auto simp: nth)
qed

lemma length_fill_row: "length (fill_row row_idx row t) = length t"
  by (simp add: fill_row_def fold_setItem_length)

lemma item_fill_row:
  "item (fill_row row_idx row t) i j =
     (if i = row_idx \<and> row_idx < length t \<and> j < length row \<and> j < columnCount
      then Some (row ! j) else item t i j)"
  by (auto simp: fill_row_def fold_setItem_item columnCount_def)

lemma fold_fill_row_length:
  "length (fold (\<lambda>(row_idx, row). fill_row row_idx row) rs t) = length t"
  by (induction rs arbitrary: t) (auto simp: length_fill_row)

lemma fold_fill_row_item:
  "item (fold (\<lambda>(row_idx, row). fill_row row_idx row) (enumerate k rows) t) i j =
     (if k \<le> i \<and> i < k + length rows \<and> i < length t \<and> j < length (rows ! (i - k))
         \<and> j < columnCount
      then Some (rows ! (i - k) ! j) else item t i j)"
proof (induction rows arbitrary: k t)
  case Nil
  show ?case by auto
next
  case (Cons r rows)
  have step: "item (fold (\<lambda>(row_idx, row). fill_row row_idx row) (enumerate k (r # rows)) t) i j =
      (if Suc k \<le> i \<and> i < Suc k + length rows \<and> i < length t
          \<and> j < length (rows ! (i - Suc k)) \<and> j < columnCount
       then Some (rows ! (i - Suc k) ! j) else item (fill_row k r t) i j)"
    by (simp add: Cons length_fill_row)
  have nth: "(r # rows) ! (i - k) = rows ! (i - Suc k)" if "Suc k \<le> i"
  proof -
    from that have "i - k = Suc (i - Suc k)" by simp
    then show ?thesis by simp
  qed
  show ?case
  proof (cases "Suc k \<le> i")
    case True
    then show ?thesis
      unfolding step item_fill_row by (simp add: nth)
  next
    case False
    then show ?thesis
      unfolding step item_fill_row by (cases "i = k") auto
  qed
qed

lemma length_fill_rows: "length (fill_rows rows t) = length t"
  by (simp add: fill_rows_def fold_fill_row_length)

lemma item_fill_rows:
  "item (fill_rows rows t) i j =
     (if i < length rows \<and> i < length t \<and> j < length (rows ! i) \<and> j < columnCount
      then Some (rows ! i ! j) else item t i j)"
  by (simp add: fill_rows_def fold_fill_row_item)

lemma show_rows_table:
  "results_table (show_rows rows st) =
     fill_rows rows (setRowCount (length rows) (results_table st))
   \<and> dialogs (show_rows rows st) = dialogs st
   \<and> summary_counts (show_rows rows st) =
       Some (length rows,
             fst (count_matches (fill_rows rows (setRowCount (length rows) (results_table st)))),
             snd (count_matches (fill_rows rows (setRowCount (length rows) (results_table st)))))"
  by (simp add: show_rows_def update_summary_def summary_counts_def)

lemma item_show_rows:
  "i < length rows \<Longrightarrow> j < columnCount \<Longrightarrow>
   item (results_table (show_rows rows st)) i j =
     (if j < length (rows ! i) then Some (rows ! i ! j)
      else item (setRowCount (length rows) (results_table st)) i j)"
  by (simp add: show_rows_table item_fill_rows length_setRowCount)

lemma six_fields_nth:
  "j < columnCount \<Longrightarrow> six_fields row ! j = (if j < length row then row ! j else [])"
  by (auto simp: six_fields_def nth_append)

lemma length_six_fields: "length (six_fields row) = columnCount"
  by (simp add: six_fields_def)

lemma cell_values_show_rows_cleared:
  assumes "results_table st = []"
  shows "cell_values (results_table (show_rows rows st)) = map six_fields rows"
proof (rule nth_equalityI)
  show len: "length (cell_values (results_table (show_rows rows st))) = length (map six_fields rows)"
    by (simp add: cell_values_def rowCount_def show_rows_table length_fill_rows
        length_setRowCount)
  fix i
  assume "i < length (cell_values (results_table (show_rows rows st)))"
  with len have i: "i < length rows" by simp
  have "map (\<lambda>col. cell_text (item (results_table (show_rows rows st)) i col)) [0..<columnCount] =
      six_fields (rows ! i)"
  proof (rule nth_equalityI)
    show "length (map (\<lambda>col. cell_text (item (results_table (show_rows rows st)) i col))
        [0..<columnCount]) = length (six_fields (rows ! i))"
      by (simp add: length_six_fields)
    fix j
    assume "j < length (map (\<lambda>col. cell_text (item (results_table (show_rows rows st)) i col))
        [0..<columnCount])"
    then have j: "j < columnCount" by simp
    with i assms
    show "map (\<lambda>col. cell_text (item (results_table (show_rows rows st)) i col)) [0..<columnCount] ! j =
        six_fields (rows ! i) ! j"
      by (simp add: item_show_rows six_fields_nth item_setRowCount_Nil cell_text_def)
  qed
  with i show "cell_values (results_table (show_rows rows st)) ! i = map six_fields rows ! i"
    by (simp add: cell_values_def rowCount_def show_rows_table length_fill_rows
        length_setRowCount)
qed

section \<open>What the writer writes\<close>

lemma join_fields_Cons:
  "join_fields (f # fs) = quote_field f @ concat (map (\<lambda>g. COMMA # quote_field g) fs)"
  by (induction fs arbitrary: f) simp_all

lemma fold_join_append:
  "0 < n \<Longrightarrow>
   fold join_append row (buf, n) =
     (buf @ concat (map (\<lambda>g. COMMA # quote_field g) row), n + length row)"
proof (induction row arbitrary: buf n)
  case Nil
  show ?case by simp
next
  case (Cons f fs)
  have "join_append f (buf, n) = (buf @ COMMA # quote_field f, Suc n)"
    using Cons.prems by (simp add: join_append_def quote_field_def)
  then show ?case by (simp add: Cons.IH)
qed

lemma fold_join_append_first:
  "fold join_append (f # fs) ([], 0) = (join_fields (f # fs), Suc (length fs))"
proof -
  have "join_append f ([], 0) = (quote_field f, Suc 0)"
    by (simp add: join_append_def quote_field_def)
  then show ?thesis by (simp add: fold_join_append join_fields_Cons)
qed

lemma writerow_join:
  "2 \<le> length row \<Longrightarrow> writerow row = join_fields row @ [CR, NL]"
proof -
  assume "2 \<le> length row"
  then obtain f g gs where row: "row = f # g # gs"
    by (cases row; cases "tl row") auto
  have "join_fields (f # g # gs) \<noteq> []" by simp
  then show ?thesis
    unfolding writerow_def row fold_join_append_first Let_def
    by simp
qed

section \<open>Reading the written text back\<close>

lemma universal_newlines_Cons:
  "c \<noteq> CR \<Longrightarrow> universal_newlines (c # s) = c # universal_newlines s"
  by (cases s) simp_all

lemma universal_newlines_CR_NL:
  "universal_newlines (CR # NL # s) = NL # universal_newlines s"
  by (simp add: universal_newlines.simps(3) [of CR NL s])

lemma universal_newlines_line:
  "CR \<notin> set a \<Longrightarrow> universal_newlines (a @ CR # NL # s) = a @ NL # universal_newlines s"
  by (induction a)
     (simp_all add: universal_newlines_Cons universal_newlines_CR_NL del: universal_newlines.simps)

lemma universal_newlines_no_CR: "CR \<notin> set (universal_newlines s)"
  by (induction s rule: universal_newlines.induct) (simp_all add: NL_def CR_def)

lemma double_quotes_set: "set (double_quotes s) = set s"
  by (induction s) (auto simp: double_quotes_def)

lemma special_chars_distinct:
  "CR \<noteq> NL" "CR \<noteq> COMMA" "CR \<noteq> QUOTE" "NL \<noteq> COMMA" "NL \<noteq> QUOTE" "COMMA \<noteq> QUOTE"
  "NL \<noteq> CR" "COMMA \<noteq> CR" "QUOTE \<noteq> CR" "COMMA \<noteq> NL" "QUOTE \<noteq> NL" "QUOTE \<noteq> COMMA"
  by (simp_all add: CR_def NL_def COMMA_def QUOTE_def)

lemma quote_field_no_CR: "CR \<notin> set s \<Longrightarrow> CR \<notin> set (quote_field s)"
  by (simp add: quote_field_def double_quotes_set special_chars_distinct)

lemma join_fields_no_CR:
  "\<forall>f \<in> set row. CR \<notin> set f \<Longrightarrow> CR \<notin> set (join_fields row)"
  by (induction row rule: join_fields.induct)
     (simp_all add: quote_field_no_CR special_chars_distinct)

lemma universal_newlines_rows:
  "\<forall>row \<in> set rows. 2 \<le> length row \<and> (\<forall>f \<in> set row. CR \<notin> set f) \<Longrightarrow>
   universal_newlines (concat (map writerow rows)) =
     concat (map (\<lambda>row. join_fields row @ [NL]) rows)"
proof (induction rows)
  case Nil
  show ?case by simp
next
  case (Cons row rows)
  then have "CR \<notin> set (join_fields row)" by (simp add: join_fields_no_CR)
  then have "universal_newlines (join_fields row @ CR # NL # concat (map writerow rows)) =
      join_fields row @ NL # universal_newlines (concat (map writerow rows))"
    by (rule universal_newlines_line)
  with Cons show ?case by (simp add: writerow_join)
qed

lemma file_lines_line:
  "NL \<notin> set cur \<Longrightarrow> file_lines (cur @ NL # cs) = (cur @ [NL]) # file_lines cs"
  by (induction cur) simp_all

lemma feed_chars_append:
  "feed_chars r (a @ b) =
     (case feed_chars r a of Inl e \<Rightarrow> Inl e | Inr r' \<Rightarrow> feed_chars r' b)"
  by (induction a arbitrary: r) (simp_all split: sum.splits)

lemma read_record_text_record:
  "text_record r inp = Inr (Some (r', rest)) \<Longrightarrow> feed_chars r0 cur = Inr r \<Longrightarrow>
   NL \<notin> set cur \<Longrightarrow>
   read_record r0 (file_lines (cur @ inp)) = Inr (Some (rfields r', file_lines rest))"
proof (induction inp arbitrary: r r0 cur)
  case Nil
  then show ?case by simp
next
  case (Cons c cs)
  from Cons.prems(1) obtain r1 where r1: "parse_process_char r (Some c) = Inr r1"
    by (auto split: sum.splits)
  show ?case
  proof (cases "c = NL")
    case True
    with Cons.prems(1) r1 obtain r2 where r2: "parse_process_char r1 None = Inr r2"
      by (auto split: sum.splits)
    from Cons.prems(2) r1 r2 True have line: "feed_line r0 (cur @ [NL]) = Inr r2"
      by (simp add: feed_line_def feed_chars_append)
    from Cons.prems(3) True
    have lines: "file_lines (cur @ c # cs) = (cur @ [NL]) # file_lines cs"
      by (simp add: file_lines_line)
    show ?thesis
    proof (cases "state r2 = START_RECORD")
      case True
      with Cons.prems(1) r1 r2 \<open>c = NL\<close> have "r' = r2" "rest = cs" by simp_all
      with True line lines show ?thesis by simp
    next
      case False
      with Cons.prems(1) r1 r2 \<open>c = NL\<close> have "text_record r2 cs = Inr (Some (r', rest))"
        by simp
      then have "read_record r2 (file_lines ([] @ cs)) = Inr (Some (rfields r', file_lines rest))"
        by (rule Cons.IH) simp_all
      with False line lines show ?thesis by simp
    qed
  next
    case False
    with Cons.prems(1) r1 have "text_record r1 cs = Inr (Some (r', rest))" by simp
    moreover from Cons.prems(2) r1 have "feed_chars r0 (cur @ [c]) = Inr r1"
      by (simp add: feed_chars_append)
    moreover from Cons.prems(3) False have "NL \<notin> set (cur @ [c])" by simp
    ultimately have "read_record r0 (file_lines ((cur @ [c]) @ cs)) =
        Inr (Some (rfields r', file_lines rest))"
      by (rule Cons.IH)
    then show ?thesis by simp
  qed
qed

lemma csv_next_text_record:
  "text_record parse_reset inp = Inr (Some (r', rest)) \<Longrightarrow>
   csv_next (file_lines inp) = Inr (Some (rfields r', file_lines rest))"
  using read_record_text_record [of parse_reset inp r' rest parse_reset "[]"]
  by (simp add: csv_next_def)

lemmas machine_defs =
  parse_process_char_def start_field_def add_char_to_def parse_add_char_def
  parse_save_field_def end_record_def

lemma double_quotes_Cons:
  "double_quotes (c # s) = (if c = QUOTE then [QUOTE, QUOTE] else [c]) @ double_quotes s"
  by (simp add: double_quotes_def)

lemma double_quotes_Nil: "double_quotes [] = []"
  by (simp add: double_quotes_def)

lemma text_record_quoted_content:
  "length (p @ s) \<le> field_limit \<Longrightarrow>
   text_record \<lparr>state = IN_QUOTED_FIELD, rfields = fs, rfield = p\<rparr> (double_quotes s @ rest) =
   text_record \<lparr>state = IN_QUOTED_FIELD, rfields = fs, rfield = p @ s\<rparr> rest"
proof (induction s arbitrary: p)
  case Nil
  show ?case by (simp add: double_quotes_Nil)
next
  case (Cons c s)
  from Cons.prems have room: "length p < field_limit" and rest: "length ((p @ [c]) @ s) \<le> field_limit"
    by simp_all
  have step: "text_record \<lparr>state = IN_QUOTED_FIELD, rfields = fs, rfield = p\<rparr>
        (double_quotes (c # s) @ rest) =
      text_record \<lparr>state = IN_QUOTED_FIELD, rfields = fs, rfield = p @ [c]\<rparr>
        (double_quotes s @ rest)"
    using room
    by (simp add: double_quotes_Cons machine_defs special_chars_distinct)
  show ?case
    unfolding step using Cons.IH [OF rest] by simp
qed

lemma text_record_quoted_comma:
  "text_record \<lparr>state = IN_QUOTED_FIELD, rfields = fs, rfield = p\<rparr> (QUOTE # COMMA # rest) =
   text_record \<lparr>state = START_FIELD, rfields = fs @ [p], rfield = []\<rparr> rest"
  by (simp add: machine_defs special_chars_distinct)

lemma text_record_quoted_end:
  "text_record \<lparr>state = IN_QUOTED_FIELD, rfields = fs, rfield = p\<rparr> (QUOTE # NL # rest) =
   Inr (Some (\<lparr>state = START_RECORD, rfields = fs @ [p], rfield = []\<rparr>, rest))"
  by (simp add: machine_defs special_chars_distinct)

lemma text_record_plain_content:
  "\<not> needs_quote s \<Longrightarrow> length (p @ s) \<le> field_limit \<Longrightarrow>
   text_record \<lparr>state = IN_FIELD, rfields = fs, rfield = p\<rparr> (s @ rest) =
   text_record \<lparr>state = IN_FIELD, rfields = fs, rfield = p @ s\<rparr> rest"
proof (induction s arbitrary: p)
  case Nil
  show ?case by simp
next
  case (Cons c s)
  from Cons.prems have room: "length p < field_limit" and rest: "length ((p @ [c]) @ s) \<le> field_limit"
    and c: "c \<noteq> COMMA" "c \<noteq> QUOTE" "c \<noteq> CR" "c \<noteq> NL" and s: "\<not> needs_quote s"
    by (simp_all add: needs_quote_def)
  have step: "text_record \<lparr>state = IN_FIELD, rfields = fs, rfield = p\<rparr> ((c # s) @ rest) =
      text_record \<lparr>state = IN_FIELD, rfields = fs, rfield = p @ [c]\<rparr> (s @ rest)"
    using room c by (simp add: machine_defs)
  show ?case
    unfolding step using Cons.IH [OF s rest] by simp
qed

lemma text_record_plain_start:
  "c \<noteq> COMMA \<Longrightarrow> c \<noteq> QUOTE \<Longrightarrow> c \<noteq> CR \<Longrightarrow> c \<noteq> NL \<Longrightarrow>
   text_record \<lparr>state = START_FIELD, rfields = fs, rfield = []\<rparr> (c # rest) =
   text_record \<lparr>state = IN_FIELD, rfields = fs, rfield = [c]\<rparr> rest"
  by (simp add: machine_defs field_limit_def)

lemma text_record_plain_comma:
  "text_record \<lparr>state = IN_FIELD, rfields = fs, rfield = p\<rparr> (COMMA # rest) =
   text_record \<lparr>state = START_FIELD, rfields = fs @ [p], rfield = []\<rparr> rest"
  by (simp add: machine_defs special_chars_distinct)

lemma text_record_plain_end:
  "text_record \<lparr>state = IN_FIELD, rfields = fs, rfield = p\<rparr> (NL # rest) =
   Inr (Some (\<lparr>state = START_RECORD, rfields = fs @ [p], rfield = []\<rparr>, rest))"
  by (simp add: machine_defs special_chars_distinct)

lemma text_record_empty_comma:
  "text_record \<lparr>state = START_FIELD, rfields = fs, rfield = []\<rparr> (COMMA # rest) =
   text_record \<lparr>state = START_FIELD, rfields = fs @ [[]], rfield = []\<rparr> rest"
  by (simp add: machine_defs special_chars_distinct)

lemma text_record_empty_end:
  "text_record \<lparr>state = START_FIELD, rfields = fs, rfield = []\<rparr> (NL # rest) =
   Inr (Some (\<lparr>state = START_RECORD, rfields = fs @ [[]], rfield = []\<rparr>, rest))"
  by (simp add: machine_defs special_chars_distinct)

lemma text_record_open_quote:
  "text_record \<lparr>state = START_FIELD, rfields = fs, rfield = []\<rparr> (QUOTE # rest) =
   text_record \<lparr>state = IN_QUOTED_FIELD, rfields = fs, rfield = []\<rparr> rest"
  by (simp add: machine_defs special_chars_distinct)

lemma text_record_field_comma:
  assumes "length s \<le> field_limit"
  shows "text_record \<lparr>state = START_FIELD, rfields = fs, rfield = []\<rparr>
           (quote_field s @ COMMA # rest) =
         text_record \<lparr>state = START_FIELD, rfields = fs @ [s], rfield = []\<rparr> rest"
proof (cases "needs_quote s")
  case True
  from assms have "length ([] @ s) \<le> field_limit" by simp
  from text_record_quoted_content [OF this, of fs "QUOTE # COMMA # rest"] True
  show ?thesis
    by (simp add: quote_field_def text_record_open_quote text_record_quoted_comma
        del: text_record.simps)
next
  case False
  show ?thesis
  proof (cases s)
    case Nil
    with False show ?thesis
      by (simp add: quote_field_def text_record_empty_comma del: text_record.simps)
  next
    case (Cons c s')
    with False have c: "c \<noteq> COMMA" "c \<noteq> QUOTE" "c \<noteq> CR" "c \<noteq> NL" and s': "\<not> needs_quote s'"
      by (simp_all add: needs_quote_def)
    from assms Cons have "length ([c] @ s') \<le> field_limit" by simp
    from text_record_plain_content [OF s' this, of fs "COMMA # rest"] False Cons c
    show ?thesis
      by (simp add: quote_field_def text_record_plain_start text_record_plain_comma
          del: text_record.simps)
  qed
qed

lemma text_record_field_end:
  assumes "length s \<le> field_limit"
  shows "text_record \<lparr>state = START_FIELD, rfields = fs, rfield = []\<rparr>
           (quote_field s @ NL # rest) =
         Inr (Some (\<lparr>state = START_RECORD, rfields = fs @ [s], rfield = []\<rparr>, rest))"
proof (cases "needs_quote s")
  case True
  from assms have "length ([] @ s) \<le> field_limit" by simp
  from text_record_quoted_content [OF this, of fs "QUOTE # NL # rest"] True
  show ?thesis
    by (simp add: quote_field_def text_record_open_quote text_record_quoted_end
        del: text_record.simps)
next
  case False
  show ?thesis
  proof (cases s)
    case Nil
    with False show ?thesis
      by (simp add: quote_field_def text_record_empty_end del: text_record.simps)
  next
    case (Cons c s')
    with False have c: "c \<noteq> COMMA" "c \<noteq> QUOTE" "c \<noteq> CR" "c \<noteq> NL" and s': "\<not> needs_quote s'"
      by (simp_all add: needs_quote_def)
    from assms Cons have "length ([c] @ s') \<le> field_limit" by simp
    from text_record_plain_content [OF s' this, of fs "NL # rest"] False Cons c
    show ?thesis
      by (simp add: quote_field_def text_record_plain_start text_record_plain_end
          del: text_record.simps)
  qed
qed

lemma text_record_fields:
  "row \<noteq> [] \<Longrightarrow> \<forall>f \<in> set row. length f \<le> field_limit \<Longrightarrow>
   text_record \<lparr>state = START_FIELD, rfields = fs, rfield = []\<rparr> (join_fields row @ NL # rest) =
   Inr (Some (\<lparr>state = START_RECORD, rfields = fs @ row, rfield = []\<rparr>, rest))"
proof (induction row arbitrary: fs rule: join_fields.induct)
  case 1
  then show ?case by simp
next
  case (2 f)
  then show ?case by (simp add: text_record_field_end del: text_record.simps)
next
  case (3 f g gs)
  from "3.prems" have f: "length f \<le> field_limit"
    and more: "\<forall>f \<in> set (g # gs). length f \<le> field_limit"
    by simp_all
  have "text_record \<lparr>state = START_FIELD, rfields = fs, rfield = []\<rparr>
        (join_fields (f # g # gs) @ NL # rest) =
      text_record \<lparr>state = START_FIELD, rfields = fs @ [f], rfield = []\<rparr>
        (join_fields (g # gs) @ NL # rest)"
    using text_record_field_comma [OF f, of fs "join_fields (g # gs) @ NL # rest"]
    by (simp del: text_record.simps)
  also have "\<dots> = Inr (Some (\<lparr>state = START_RECORD, rfields = (fs @ [f]) @ g # gs, rfield = []\<rparr>, rest))"
    by (rule "3.IH") (simp_all add: more)
  finally show ?case by simp
qed

lemma text_record_start:
  "c \<noteq> NL \<Longrightarrow> c \<noteq> CR \<Longrightarrow>
   text_record \<lparr>state = START_RECORD, rfields = fs, rfield = p\<rparr> (c # cs) =
   text_record \<lparr>state = START_FIELD, rfields = fs, rfield = p\<rparr> (c # cs)"
  by (simp add: parse_process_char_def)

lemma quote_field_first:
  "\<exists>c cs. quote_field f @ COMMA # rest = c # cs \<and> c \<noteq> NL \<and> c \<noteq> CR"
proof (cases "needs_quote f")
  case True
  then show ?thesis by (simp add: quote_field_def special_chars_distinct)
next
  case False
  then show ?thesis
    by (cases f) (simp_all add: quote_field_def needs_quote_def special_chars_distinct)
qed

lemma text_record_row:
  assumes "2 \<le> length row" and "\<forall>f \<in> set row. length f \<le> field_limit"
  shows "text_record parse_reset (join_fields row @ NL # rest) =
     Inr (Some (\<lparr>state = START_RECORD, rfields = row, rfield = []\<rparr>, rest))"
proof -
  from assms(1) obtain f g gs where row: "row = f # g # gs"
    by (cases row; cases "tl row") auto
  obtain c cs where first: "quote_field f @ COMMA # (join_fields (g # gs) @ NL # rest) = c # cs"
    and c: "c \<noteq> NL" "c \<noteq> CR"
    using quote_field_first [of f "join_fields (g # gs) @ NL # rest"] by blast
  from first row have body: "join_fields row @ NL # rest = c # cs" by simp
  have "text_record parse_reset (c # cs) =
      text_record \<lparr>state = START_FIELD, rfields = [], rfield = []\<rparr> (c # cs)"
    unfolding parse_reset_def using c by (rule text_record_start)
  also have "\<dots> = Inr (Some (\<lparr>state = START_RECORD, rfields = [] @ row, rfield = []\<rparr>, rest))"
    unfolding body [symmetric] using assms(2) row by (intro text_record_fields) simp_all
  finally show ?thesis by (simp add: body)
qed

lemma csv_next_row:
  assumes "2 \<le> length row" and "\<forall>f \<in> set row. length f \<le> field_limit"
  shows "csv_next (file_lines (join_fields row @ NL # rest)) = Inr (Some (row, file_lines rest))"
  using csv_next_text_record [OF text_record_row [OF assms]] by simp

lemma csv_list_rows:
  "\<forall>row \<in> set rows. 2 \<le> length row \<and> (\<forall>f \<in> set row. length f \<le> field_limit) \<Longrightarrow>
   csv_list (file_lines (concat (map (\<lambda>row. join_fields row @ [NL]) rows))) = Inr rows"
proof (induction rows)
  case Nil
  show ?case by (simp add: csv_list_Nil)
next
  case (Cons row rows)
  let ?rest = "concat (map (\<lambda>row. join_fields row @ [NL]) rows)"
  from Cons.prems
  have "csv_next (file_lines (join_fields row @ NL # ?rest)) = Inr (Some (row, file_lines ?rest))"
    by (intro csv_next_row) simp_all
  moreover from Cons have "csv_list (file_lines ?rest) = Inr rows" by simp
  ultimately show ?case
    by (subst csv_list.simps) simp
qed

section \<open>What a loaded table can hold\<close>

lemma loadable_Nil: "loadable []"
  by (simp add: loadable_def)

lemma reader_ok_reset: "reader_ok parse_reset"
  by (simp add: reader_ok_def parse_reset_def loadable_Nil)

lemma parse_add_char_ok:
  "parse_add_char r c = Inr r' \<Longrightarrow> reader_ok r \<Longrightarrow> c \<noteq> CR \<Longrightarrow>
   reader_ok r' \<and> state r' = state r"
  by (auto simp: parse_add_char_def reader_ok_def loadable_def split: if_splits)

lemma add_char_to_ok:
  "add_char_to s r c = Inr r' \<Longrightarrow> reader_ok r \<Longrightarrow> c \<noteq> CR \<Longrightarrow> reader_ok r'"
  by (auto simp: add_char_to_def reader_ok_def dest!: parse_add_char_ok split: sum.splits)

lemma parse_save_field_ok: "reader_ok r \<Longrightarrow> reader_ok (parse_save_field r)"
  by (auto simp: parse_save_field_def reader_ok_def loadable_Nil)

lemma reader_ok_state: "reader_ok (r\<lparr>state := s\<rparr>) = reader_ok r"
  by (simp add: reader_ok_def)

lemma end_record_ok: "reader_ok r \<Longrightarrow> reader_ok (end_record r c)"
  by (simp add: end_record_def reader_ok_state parse_save_field_ok)

lemma start_field_ok:
  "start_field r c = Inr r' \<Longrightarrow> reader_ok r \<Longrightarrow> c \<noteq> Some CR \<Longrightarrow> reader_ok r'"
  by (auto simp: start_field_def reader_ok_state end_record_ok parse_save_field_ok
      split: option.splits if_splits dest: add_char_to_ok)

lemma parse_process_char_ok:
  "parse_process_char r c = Inr r' \<Longrightarrow> reader_ok r \<Longrightarrow> c \<noteq> Some CR \<Longrightarrow> reader_ok r'"
proof (cases "state r")
  case START_RECORD
  assume "parse_process_char r c = Inr r'" "reader_ok r" "c \<noteq> Some CR"
  with START_RECORD show ?thesis
    by (auto simp: parse_process_char_def reader_ok_state
        split: option.splits if_splits dest: start_field_ok)
next
  case START_FIELD
  assume "parse_process_char r c = Inr r'" "reader_ok r" "c \<noteq> Some CR"
  with START_FIELD show ?thesis
    by (auto simp: parse_process_char_def dest: start_field_ok)
next
  case IN_FIELD
  assume "parse_process_char r c = Inr r'" "reader_ok r" "c \<noteq> Some CR"
  with IN_FIELD show ?thesis
    by (auto simp: parse_process_char_def reader_ok_state end_record_ok parse_save_field_ok
        split: option.splits if_splits dest: add_char_to_ok)
next
  case IN_QUOTED_FIELD
  assume "parse_process_char r c = Inr r'" "reader_ok r" "c \<noteq> Some CR"
  with IN_QUOTED_FIELD show ?thesis
    by (auto simp: parse_process_char_def reader_ok_state
        split: option.splits if_splits dest: add_char_to_ok)
next
  case QUOTE_IN_QUOTED_FIELD
  assume "parse_process_char r c = Inr r'" "reader_ok r" "c \<noteq> Some CR"
  with QUOTE_IN_QUOTED_FIELD show ?thesis
    by (auto simp: parse_process_char_def reader_ok_state end_record_ok parse_save_field_ok
        split: option.splits if_splits dest: add_char_to_ok)
next
  case EAT_CRNL
  assume "parse_process_char r c = Inr r'" "reader_ok r" "c \<noteq> Some CR"
  with EAT_CRNL show ?thesis
    by (auto simp: parse_process_char_def reader_ok_state split: option.splits if_splits)
qed

lemma feed_chars_ok:
  "feed_chars r l = Inr r' \<Longrightarrow> reader_ok r \<Longrightarrow> CR \<notin> set l \<Longrightarrow> reader_ok r'"
proof (induction l arbitrary: r)
  case Nil
  then show ?case by simp
next
  case (Cons c l)
  from Cons.prems(1) obtain r1 where r1: "parse_process_char r (Some c) = Inr r1"
    and rest: "feed_chars r1 l = Inr r'"
    by (auto split: sum.splits)
  from r1 Cons.prems(2,3) have "reader_ok r1" by (auto dest: parse_process_char_ok)
  with rest Cons.prems(3) show ?case by (auto intro: Cons.IH)
qed

lemma feed_line_ok:
  "feed_line r l = Inr r' \<Longrightarrow> reader_ok r \<Longrightarrow> CR \<notin> set l \<Longrightarrow> reader_ok r'"
  by (auto simp: feed_line_def split: sum.splits dest: feed_chars_ok parse_process_char_ok)

lemma read_record_ok:
  "read_record r ls = Inr (Some (row, rest)) \<Longrightarrow> reader_ok r \<Longrightarrow> \<forall>l \<in> set ls. CR \<notin> set l \<Longrightarrow>
   (\<forall>f \<in> set row. loadable f) \<and> set rest \<subseteq> set ls"
proof (induction ls arbitrary: r)
  case Nil
  from Nil.prems(2) have "reader_ok (parse_save_field r)" by (rule parse_save_field_ok)
  with Nil.prems(1) show ?case
    by (auto simp: reader_ok_def split: if_splits)
next
  case (Cons l ls)
  from Cons.prems(1) obtain r1 where r1: "feed_line r l = Inr r1"
    by (auto split: sum.splits)
  with Cons.prems(2,3) have ok: "reader_ok r1" by (auto dest: feed_line_ok)
  show ?case
  proof (cases "state r1 = START_RECORD")
    case True
    with Cons.prems(1) r1 have "row = rfields r1" "rest = ls" by simp_all
    with ok show ?thesis by (auto simp: reader_ok_def)
  next
    case False
    with Cons.prems(1) r1 have "read_record r1 ls = Inr (Some (row, rest))" by simp
    from Cons.IH [OF this ok] Cons.prems(3) show ?thesis by auto
  qed
qed

lemma csv_next_ok:
  "csv_next ls = Inr (Some (row, rest)) \<Longrightarrow> \<forall>l \<in> set ls. CR \<notin> set l \<Longrightarrow>
   (\<forall>f \<in> set row. loadable f) \<and> (\<forall>l \<in> set rest. CR \<notin> set l)"
  using read_record_ok [of parse_reset ls row rest]
  by (auto simp: csv_next_def reader_ok_reset)

lemma csv_list_ok:
  "csv_list ls = Inr rows \<Longrightarrow> \<forall>l \<in> set ls. CR \<notin> set l \<Longrightarrow>
   \<forall>row \<in> set rows. \<forall>f \<in> set row. loadable f"
proof (induction ls arbitrary: rows rule: csv_list.induct)
  case (1 ls)
  show ?case
  proof (cases "csv_next ls")
    case (Inl e)
    with "1.prems"(1) show ?thesis by (subst (asm) csv_list.simps) simp
  next
    case (Inr x)
    show ?thesis
    proof (cases x)
      case None
      with Inr "1.prems"(1) have "rows = []" by (subst (asm) csv_list.simps) simp
      then show ?thesis by simp
    next
      case (Some y)
      obtain row rest where y: "y = (row, rest)" by (cases y)
      with Inr Some "1.prems"(1) obtain rows' where rows': "csv_list rest = Inr rows'"
        and rows: "rows = row # rows'"
        by (subst (asm) csv_list.simps) (auto split: sum.splits)
      from Inr Some y "1.prems"(2) have row_ok: "\<forall>f \<in> set row. loadable f"
        and rest_ok: "\<forall>l \<in> set rest. CR \<notin> set l"
        using csv_next_ok [of ls row rest] by simp_all
      from "1.IH" [OF Inr Some y [symmetric] rows' rest_ok] row_ok rows
      show ?thesis by simp
    qed
  qed
qed

lemma file_lines_set: "l \<in> set (file_lines s) \<Longrightarrow> set l \<subseteq> set s"
proof (induction s arbitrary: l)
  case Nil
  then show ?case by simp
next
  case (Cons c s)
  note IH = Cons.IH and prems = Cons.prems
  show ?case
  proof (cases "c = NL")
    case True
    with prems have "l = [NL] \<or> l \<in> set (file_lines s)" by simp
    with True IH show ?thesis by auto
  next
    case False
    show ?thesis
    proof (cases "file_lines s")
      case Nil
      with False prems show ?thesis by simp
    next
      case (Cons k ks)
      note fl = this
      with False prems have l: "l = c # k \<or> l \<in> set ks" by simp
      from fl have "k \<in> set (file_lines s)" and "\<forall>m \<in> set ks. m \<in> set (file_lines s)"
        by auto
      with IH have "set k \<subseteq> set s" and "\<forall>m \<in> set ks. set m \<subseteq> set s" by blast+
      with l show ?thesis by auto
    qed
  qed
qed

lemma file_lines_no_CR: "\<forall>l \<in> set (file_lines (universal_newlines raw)). CR \<notin> set l"
  using file_lines_set universal_newlines_no_CR by blast

lemma loadable_table_Nil: "loadable_table []"
  by (simp add: loadable_table_def item_def cell_text_def loadable_Nil)

lemma loadable_show_rows:
  assumes "\<forall>row \<in> set rows. \<forall>f \<in> set row. loadable f" and "results_table st = []"
  shows "loadable_table (results_table (show_rows rows st))"
  unfolding loadable_table_def
proof (intro allI)
  fix i j
  show "loadable (cell_text (item (results_table (show_rows rows st)) i j))"
  proof (cases "i < length rows \<and> j < length (rows ! i) \<and> j < columnCount")
    case True
    then have "rows ! i ! j \<in> set (rows ! i)" and "rows ! i \<in> set rows" by simp_all
    with assms(1) have "loadable (rows ! i ! j)" by blast
    with True show ?thesis
      by (simp add: show_rows_table item_fill_rows length_setRowCount cell_text_def)
  next
    case False
    with assms(2) show ?thesis
      by (auto simp: show_rows_table item_fill_rows length_setRowCount item_setRowCount_Nil
          cell_text_def loadable_Nil)
  qed
qed

lemma load_results_loadable:
  assumes "results_table st = []"
  shows "loadable_table (results_table (load_results st))"
proof (cases "files st ''search_results.csv''")
  case None
  with assms show ?thesis by (simp add: load_results_def loadable_table_Nil)
next
  case (Some content)
  show ?thesis
  proof (cases content)
    case (Unreadable msg)
    with Some assms show ?thesis
      by (simp add: load_results_def load_warning_def loadable_table_Nil)
  next
    case (Text raw)
    let ?ls = "file_lines (universal_newlines raw)"
    show ?thesis
    proof (cases "csv_next ?ls")
      case (Inl e)
      with Some Text assms show ?thesis
        by (simp add: load_results_def load_warning_def loadable_table_Nil)
    next
      case (Inr x)
      show ?thesis
      proof (cases x)
        case None
        with Some Text Inr have "load_results st = show_rows [] st"
          by (simp add: load_results_def)
        with assms show ?thesis by (simp add: loadable_show_rows)
      next
        case (Some y)
        obtain headers rest where y: "y = (headers, rest)" by (cases y)
        with Inr Some have nxt: "csv_next ?ls = Inr (Some (headers, rest))" by simp
        with csv_next_ok [OF nxt file_lines_no_CR] have rest: "\<forall>l \<in> set rest. CR \<notin> set l"
          by simp
        show ?thesis
        proof (cases "csv_list rest")
          case (Inl e)
          with \<open>files st ''search_results.csv'' = Some content\<close> Text nxt assms show ?thesis
            by (simp add: load_results_def load_warning_def loadable_table_Nil)
        next
          case (Inr rows)
          with \<open>files st ''search_results.csv'' = Some content\<close> Text nxt
          have "load_results st = show_rows rows st"
            by (simp add: load_results_def)
          moreover from csv_list_ok [OF Inr rest]
          have "\<forall>row \<in> set rows. \<forall>f \<in> set row. loadable f" .
          ultimately show ?thesis using assms by (simp add: loadable_show_rows)
        qed
      qed
    qed
  qed
qed

lemma cell_values_row_length: "row \<in> set (cell_values t) \<Longrightarrow> length row = columnCount"
  by (auto simp: cell_values_def)

lemma cell_values_loadable:
  "loadable_table t \<Longrightarrow> row \<in> set (cell_values t) \<Longrightarrow> f \<in> set row \<Longrightarrow> loadable f"
  by (auto simp: cell_values_def loadable_table_def)

lemma csv_text_rows: "csv_text t = concat (map writerow (header_labels # cell_values t))"
  by (simp add: csv_text_def cell_values_def row_data_def comp_def)

lemma header_labels_ok:
  "length header_labels = columnCount \<and> (\<forall>f \<in> set header_labels. loadable f)"
  by (simp add: header_labels_def columnCount_def loadable_def lit_def CR_def field_limit_def)

lemma csv_text_read_back:
  assumes "loadable_table t"
  shows "csv_next (file_lines (universal_newlines (csv_text t))) =
      Inr (Some (header_labels,
        file_lines (concat (map (\<lambda>row. join_fields row @ [NL]) (cell_values t)))))
    \<and> csv_list (file_lines (concat (map (\<lambda>row. join_fields row @ [NL]) (cell_values t)))) =
      Inr (cell_values t)"
proof -
  have rows: "\<forall>row \<in> set (header_labels # cell_values t).
      2 \<le> length row \<and> (\<forall>f \<in> set row. loadable f)"
    using assms header_labels_ok
    by (auto simp: columnCount_def dest: cell_values_row_length cell_values_loadable)
  then have no_CR: "\<forall>row \<in> set (header_labels # cell_values t).
      2 \<le> length row \<and> (\<forall>f \<in> set row. CR \<notin> set f)"
    by (simp add: loadable_def)
  have un: "universal_newlines (csv_text t) =
      join_fields header_labels @ NL #
        concat (map (\<lambda>row. join_fields row @ [NL]) (cell_values t))"
    unfolding csv_text_rows universal_newlines_rows [OF no_CR] by simp
  from rows have "2 \<le> length header_labels"
    and "\<forall>f \<in> set header_labels. length f \<le> field_limit"
    by (simp_all add: loadable_def)
  then have "csv_next (file_lines (universal_newlines (csv_text t))) =
      Inr (Some (header_labels,
        file_lines (concat (map (\<lambda>row. join_fields row @ [NL]) (cell_values t)))))"
    unfolding un by (rule csv_next_row)
  moreover from rows
  have "csv_list (file_lines (concat (map (\<lambda>row. join_fields row @ [NL]) (cell_values t)))) =
      Inr (cell_values t)"
    by (intro csv_list_rows) (simp add: loadable_def)
  ultimately show ?thesis by simp
qed

lemma cell_values_show_rows_full:
  assumes "\<forall>row \<in> set rows. length row = columnCount"
  shows "cell_values (results_table (show_rows rows st)) = rows"
proof (rule nth_equalityI)
  show len: "length (cell_values (results_table (show_rows rows st))) = length rows"
    by (simp add: cell_values_def rowCount_def show_rows_table length_fill_rows
        length_setRowCount)
  fix i
  assume "i < length (cell_values (results_table (show_rows rows st)))"
  with len have i: "i < length rows" by simp
  with assms have six: "length (rows ! i) = columnCount" by simp
  have "map (\<lambda>col. cell_text (item (results_table (show_rows rows st)) i col)) [0..<columnCount] =
      rows ! i"
  proof (rule nth_equalityI)
    show "length (map (\<lambda>col. cell_text (item (results_table (show_rows rows st)) i col))
        [0..<columnCount]) = length (rows ! i)"
      by (simp add: six)
    fix j
    assume "j < length (map (\<lambda>col. cell_text (item (results_table (show_rows rows st)) i col))
        [0..<columnCount])"
    then have j: "j < columnCount" by simp
    with i six
    show "map (\<lambda>col. cell_text (item (results_table (show_rows rows st)) i col)) [0..<columnCount] ! j =
        rows ! i ! j"
      by (simp add: item_show_rows cell_text_def)
  qed
  with i show "cell_values (results_table (show_rows rows st)) ! i = rows ! i"
    by (simp add: cell_values_def rowCount_def show_rows_table length_fill_rows
        length_setRowCount)
qed

lemma load_results_csv_text:
  assumes "loadable_table t" and "files st ''search_results.csv'' = Some (Text (csv_text t))"
  shows "cell_values (results_table (load_results st)) = cell_values t
    \<and> dialogs (load_results st) = dialogs st"
proof -
  from csv_text_read_back [OF assms(1)] assms(2)
  have "load_results st = show_rows (cell_values t) st"
    by (simp add: load_results_def)
  moreover have "cell_values (results_table (show_rows (cell_values t) st)) = cell_values t"
    by (rule cell_values_show_rows_full) (simp add: cell_values_row_length)
  ultimately show ?thesis by (simp add: show_rows_table)
qed

text \<open>
  C1.  Let a table hold what \<open>load_results\<close> has put into the table cleared for a search.
  When \<open>save_as_csv\<close> writes it without an error and \<open>load_results\<close> then finds the written
  text as \<open>search_results.csv\<close>, the table shows the same six cell values in every row, row
  by row, whatever the table held before this second load, and no warning is shown.  The
  header labels are written and skipped; texts with commas, quotes or line feeds are quoted
  by the writer and restored by the reader.
\<close>

theorem csv_round_trip:
  assumes "results_table st0 = []"
    and "results_table st = results_table (load_results st0)"
    and "save_as_csv file_path st = (None, st')"
    and "files st2 ''search_results.csv'' = files st' file_path"
  shows "cell_values (results_table (load_results st2)) = cell_values (results_table st)
    \<and> dialogs (load_results st2) = dialogs st2"
proof -
  from assms(1,2) have ok: "loadable_table (results_table st)"
    by (simp add: load_results_loadable)
  from assms(3) have "files st' file_path = Some (Text (csv_text (results_table st)))"
    by (auto simp: save_as_csv_def write_file_def split: if_splits)
  with assms(4) have "files st2 ''search_results.csv'' = Some (Text (csv_text (results_table st)))"
    by simp
  with ok show ?thesis by (rule load_results_csv_text)
qed

lemma load_results_frame:
  "write_protected (load_results st) = write_protected st \<and> files (load_results st) = files st"
  by (simp add: load_results_def load_warning_def show_rows_def update_summary_def
      split: option.splits file_content.splits sum.splits prod.splits)

theorem csv_round_trip_witness:
  "results_table (initial_gui False
       [''search_results.csv'' \<mapsto>
          Text (lit ''H'' @ [NL] @ lit ''a,'' @ [QUOTE] @ lit ''x,y'' @ [QUOTE, QUOTE] @ lit ''z''
                @ [NL] @ lit ''w'' @ [QUOTE] @ lit '',c'' @ [NL])]
       (\<lambda>name. False)) = []
   \<and> fst (save_as_csv ''search_results.csv'' (load_results (initial_gui False
       [''search_results.csv'' \<mapsto>
          Text (lit ''H'' @ [NL] @ lit ''a,'' @ [QUOTE] @ lit ''x,y'' @ [QUOTE, QUOTE] @ lit ''z''
                @ [NL] @ lit ''w'' @ [QUOTE] @ lit '',c'' @ [NL])]
       (\<lambda>name. False)))) = None
   \<and> cell_values (results_table (load_results (initial_gui False
       [''search_results.csv'' \<mapsto>
          Text (lit ''H'' @ [NL] @ lit ''a,'' @ [QUOTE] @ lit ''x,y'' @ [QUOTE, QUOTE] @ lit ''z''
                @ [NL] @ lit ''w'' @ [QUOTE] @ lit '',c'' @ [NL])]
       (\<lambda>name. False)))) =
       [[lit ''a'', lit ''x,y'' @ [QUOTE] @ lit ''z'' @ [NL] @ lit ''w'', lit ''c'', [], [], []]]
   \<and> cell_values (results_table (load_results (snd (save_as_csv ''search_results.csv''
       (load_results (initial_gui False
       [''search_results.csv'' \<mapsto>
          Text (lit ''H'' @ [NL] @ lit ''a,'' @ [QUOTE] @ lit ''x,y'' @ [QUOTE, QUOTE] @ lit ''z''
                @ [NL] @ lit ''w'' @ [QUOTE] @ lit '',c'' @ [NL])]
       (\<lambda>name. False))))))) =
       [[lit ''a'', lit ''x,y'' @ [QUOTE] @ lit ''z'' @ [NL] @ lit ''w'', lit ''c'', [], [], []]]"
proof -
  let ?raw = "lit ''H'' @ [NL] @ lit ''a,'' @ [QUOTE] @ lit ''x,y'' @ [QUOTE, QUOTE] @ lit ''z''
                @ [NL] @ lit ''w'' @ [QUOTE] @ lit '',c'' @ [NL]"
  let ?S0 = "initial_gui False [''search_results.csv'' \<mapsto> Text ?raw] (\<lambda>name. False)"
  let ?rest = "[lit ''a,'' @ [QUOTE] @ lit ''x,y'' @ [QUOTE, QUOTE] @ lit ''z'' @ [NL],
                lit ''w'' @ [QUOTE] @ lit '',c'' @ [NL]]"
  let ?rows = "[[lit ''a'', lit ''x,y'' @ [QUOTE] @ lit ''z'' @ [NL] @ lit ''w'', lit ''c'']]"
  let ?shown = "[[lit ''a'', lit ''x,y'' @ [QUOTE] @ lit ''z'' @ [NL] @ lit ''w'', lit ''c'',
                  [], [], []]]"
  let ?st = "load_results ?S0"
  note reader_defs = lit_def NL_def CR_def COMMA_def QUOTE_def csv_next_def parse_reset_def
    feed_line_def machine_defs field_limit_def
  have c: "results_table ?S0 = []"
    by (simp add: initial_gui_def)
  have f: "files ?S0 ''search_results.csv'' = Some (Text ?raw)"
    by (simp add: initial_gui_def)
  have h: "csv_next (file_lines (universal_newlines ?raw)) = Inr (Some ([lit ''H''], ?rest))"
    by (simp add: reader_defs)
  have r: "csv_list ?rest = Inr ?rows"
    by (simp add: csv_list.simps reader_defs)
  from f h r have "?st = show_rows ?rows ?S0"
    by (simp add: load_results_def)
  then have "cell_values (results_table ?st) = map six_fields ?rows"
    by (simp only: cell_values_show_rows_cleared [OF c])
  also have "\<dots> = ?shown"
    by (simp add: six_fields_def columnCount_def numeral_eq_Suc)
  finally have loaded: "cell_values (results_table ?st) = ?shown" .
  have "write_protected ?st = (\<lambda>name. False)"
    by (simp add: load_results_frame initial_gui_def)
  then have s: "fst (save_as_csv ''search_results.csv'' ?st) = None"
    by (simp add: save_as_csv_def write_file_def)
  then have s': "save_as_csv ''search_results.csv'' ?st =
      (None, snd (save_as_csv ''search_results.csv'' ?st))"
    by (simp add: prod_eq_iff)
  from csv_round_trip [OF c refl s' refl] loaded
  have "cell_values (results_table (load_results (snd (save_as_csv ''search_results.csv'' ?st)))) =
      ?shown"
    by simp
  with c s loaded show ?thesis by (simp only:)
qed

section \<open>The counters of the summary\<close>

lemma count_matches_bound: "fst (count_matches t) + snd (count_matches t) \<le> rowCount t"
proof -
  have "fst (count_matches t) + snd (count_matches t) \<le> length (first_column t)"
    by (simp add: count_matches_first_column filename_content_disjoint)
  also have "\<dots> \<le> rowCount t" by (rule first_column_length)
  finally show ?thesis .
qed

lemma first_column_snoc:
  "first_column (t @ [row]) = first_column t @ (case row 0 of None \<Rightarrow> [] | Some s \<Rightarrow> [s])"
proof -
  have old: "map (\<lambda>r. case item (t @ [row]) r 0 of None \<Rightarrow> [] | Some s \<Rightarrow> [s]) [0..<length t] =
      map (\<lambda>r. case item t r 0 of None \<Rightarrow> [] | Some s \<Rightarrow> [s]) [0..<length t]"
    by (rule map_cong) (simp_all add: item_def nth_append)
  have new: "item (t @ [row]) (length t) 0 = row 0"
    by (simp add: item_def columnCount_def)
  show ?thesis
    by (simp add: first_column_def rowCount_def old new)
qed

lemma summary_counts_snoc:
  "summary_counts (update_summary n (st\<lparr>results_table := t @ [row]\<rparr>)) =
     Some (n,
       length (filter is_filename (first_column t))
         + (case row 0 of None \<Rightarrow> 0 | Some s \<Rightarrow> if is_filename s then 1 else 0),
       length (filter is_content (first_column t))
         + (case row 0 of None \<Rightarrow> 0 | Some s \<Rightarrow> if is_content s then 1 else 0))"
  by (cases "row 0") (simp_all add: summary_counts_update_summary first_column_snoc)

lemma load_results_summary:
  "summary_text (load_results st) = summary_text st
   \<or> (\<exists>fn cn. summary_counts (load_results st) =
          Some (rowCount (results_table (load_results st)), fn, cn)
        \<and> fn + cn \<le> rowCount (results_table (load_results st)))"
proof -
  have shown: "\<exists>fn cn. summary_counts (show_rows rows st) =
          Some (rowCount (results_table (show_rows rows st)), fn, cn)
        \<and> fn + cn \<le> rowCount (results_table (show_rows rows st))" for rows
  proof -
    let ?T = "fill_rows rows (setRowCount (length rows) (results_table st))"
    have "rowCount ?T = length rows"
      by (simp add: rowCount_def length_fill_rows length_setRowCount)
    moreover have "results_table (show_rows rows st) = ?T"
      by (simp add: show_rows_def update_summary_def)
    moreover have "summary_counts (show_rows rows st) =
        Some (length rows, fst (count_matches ?T), snd (count_matches ?T))"
      by (simp add: show_rows_def update_summary_def summary_counts_def)
    moreover have "fst (count_matches ?T) + snd (count_matches ?T) \<le> rowCount ?T"
      by (rule count_matches_bound)
    ultimately show ?thesis
      by (intro exI [of _ "fst (count_matches ?T)"] exI [of _ "snd (count_matches ?T)"]) simp
  qed
  have "load_results st = st \<or> (\<exists>msg. load_results st = load_warning msg st)
      \<or> (\<exists>rows. load_results st = show_rows rows st)"
    by (auto simp: load_results_def split: option.splits file_content.splits sum.splits)
  then show ?thesis
  proof (elim disjE exE)
    assume "load_results st = st"
    then show ?thesis by simp
  next
    fix msg assume "load_results st = load_warning msg st"
    then show ?thesis by (simp add: load_warning_def)
  next
    fix rows assume "load_results st = show_rows rows st"
    with shown [of rows] show ?thesis by simp
  qed
qed

text \<open>
  C9.  In the summary that \<open>update_summary\<close> writes, one more table row raises at most one
  of the two counters, by one, and a row whose first column contains both \<open>FileName\<close> and
  \<open>Content\<close> raises the filename counter only.  With the total that the callers pass (the
  row count, also after \<open>load_results\<close>), the two counters together never exceed the
  reported total, and they can stay below it.
\<close>

theorem update_summary_counters_exclusive:
  "(\<exists>fn cn d. summary_counts (update_summary n (st\<lparr>results_table := t\<rparr>)) = Some (n, fn, cn)
      \<and> summary_counts (update_summary n (st\<lparr>results_table := t @ [row]\<rparr>)) =
          Some (n, fn + fst d, cn + snd d)
      \<and> (d = (0, 0) \<or> d = (1, 0) \<or> d = (0, 1)))
   \<and> (row 0 = Some s \<and> py_in (lit ''FileName'') s \<and> py_in (lit ''Content'') s \<longrightarrow>
       (\<exists>fn cn. summary_counts (update_summary n (st\<lparr>results_table := t\<rparr>)) = Some (n, fn, cn)
          \<and> summary_counts (update_summary n (st\<lparr>results_table := t @ [row]\<rparr>)) =
              Some (n, fn + 1, cn)))
   \<and> (\<exists>fn cn. summary_counts (update_summary (rowCount (results_table st)) st) =
          Some (rowCount (results_table st), fn, cn)
        \<and> fn + cn \<le> rowCount (results_table st))
   \<and> (summary_text (load_results st) = summary_text st
       \<or> (\<exists>fn cn. summary_counts (load_results st) =
              Some (rowCount (results_table (load_results st)), fn, cn)
            \<and> fn + cn \<le> rowCount (results_table (load_results st))))
   \<and> (\<exists>st' fn cn. summary_counts (update_summary (rowCount (results_table st')) st') =
          Some (rowCount (results_table st'), fn, cn)
        \<and> fn + cn < rowCount (results_table st'))"
proof (intro conjI)
  let ?fn = "length (filter is_filename (first_column t))"
  let ?cn = "length (filter is_content (first_column t))"
  let ?d = "(case row 0 of None \<Rightarrow> 0 | Some s \<Rightarrow> if is_filename s then 1 else 0,
             case row 0 of None \<Rightarrow> 0 | Some s \<Rightarrow> if is_content s then 1 else 0) :: nat \<times> nat"
  have before: "summary_counts (update_summary n (st\<lparr>results_table := t\<rparr>)) = Some (n, ?fn, ?cn)"
    by (simp add: summary_counts_update_summary)
  have after: "summary_counts (update_summary n (st\<lparr>results_table := t @ [row]\<rparr>)) =
      Some (n, ?fn + fst ?d, ?cn + snd ?d)"
    by (simp add: summary_counts_snoc)
  have "?d = (0, 0) \<or> ?d = (1, 0) \<or> ?d = (0, 1)"
    by (cases "row 0") (auto simp: is_content_def is_filename_def)
  with before after
  show "\<exists>fn cn d. summary_counts (update_summary n (st\<lparr>results_table := t\<rparr>)) = Some (n, fn, cn)
      \<and> summary_counts (update_summary n (st\<lparr>results_table := t @ [row]\<rparr>)) =
          Some (n, fn + fst d, cn + snd d)
      \<and> (d = (0, 0) \<or> d = (1, 0) \<or> d = (0, 1))"
    by blast
  show "row 0 = Some s \<and> py_in (lit ''FileName'') s \<and> py_in (lit ''Content'') s \<longrightarrow>
       (\<exists>fn cn. summary_counts (update_summary n (st\<lparr>results_table := t\<rparr>)) = Some (n, fn, cn)
          \<and> summary_counts (update_summary n (st\<lparr>results_table := t @ [row]\<rparr>)) =
              Some (n, fn + 1, cn))"
  proof
    assume both: "row 0 = Some s \<and> py_in (lit ''FileName'') s \<and> py_in (lit ''Content'') s"
    then have "summary_counts (update_summary n (st\<lparr>results_table := t @ [row]\<rparr>)) =
        Some (n, ?fn + 1, ?cn)"
      by (simp add: summary_counts_snoc is_filename_def is_content_def)
    with before show "\<exists>fn cn.
        summary_counts (update_summary n (st\<lparr>results_table := t\<rparr>)) = Some (n, fn, cn)
        \<and> summary_counts (update_summary n (st\<lparr>results_table := t @ [row]\<rparr>)) =
            Some (n, fn + 1, cn)"
      by blast
  qed
  have "summary_counts (update_summary (rowCount (results_table st)) st) =
      Some (rowCount (results_table st), fst (count_matches (results_table st)),
            snd (count_matches (results_table st)))"
    by (simp add: summary_counts_def update_summary_def)
  with count_matches_bound [of "results_table st"]
  show "\<exists>fn cn. summary_counts (update_summary (rowCount (results_table st)) st) =
          Some (rowCount (results_table st), fn, cn)
        \<and> fn + cn \<le> rowCount (results_table st)"
    by blast
  show "summary_text (load_results st) = summary_text st
       \<or> (\<exists>fn cn. summary_counts (load_results st) =
              Some (rowCount (results_table (load_results st)), fn, cn)
            \<and> fn + cn \<le> rowCount (results_table (load_results st)))"
    by (rule load_results_summary)
  let ?O = "st\<lparr>results_table := [[0 \<mapsto> lit ''Other'']]\<rparr>"
  have "summary_counts (update_summary (rowCount (results_table ?O)) ?O) =
      Some (rowCount (results_table ?O), 0, 0) \<and> (0::nat) + 0 < rowCount (results_table ?O)"
    by (simp add: summary_counts_def update_summary_def count_matches_def count_row_def
        rowCount_def item_def columnCount_def lit_def)
  then show "\<exists>st' fn cn. summary_counts (update_summary (rowCount (results_table st')) st') =
          Some (rowCount (results_table st'), fn, cn)
        \<and> fn + cn < rowCount (results_table st')"
    by blast
qed

theorem update_summary_counters_exclusive_witness:
  "[0 \<mapsto> lit ''FileName and Content''] 0 = Some (lit ''FileName and Content'')
   \<and> py_in (lit ''FileName'') (lit ''FileName and Content'')
   \<and> py_in (lit ''Content'') (lit ''FileName and Content'')
   \<and> summary_counts (update_summary 1
         ((initial_gui False (\<lambda>name. None) (\<lambda>name. False))\<lparr>results_table := []\<rparr>)) =
       Some (1, 0, 0)
   \<and> summary_counts (update_summary 1
         ((initial_gui False (\<lambda>name. None) (\<lambda>name. False))
            \<lparr>results_table := [] @ [[0 \<mapsto> lit ''FileName and Content'']]\<rparr>)) =
       Some (1, 1, 0)"
proof -
  let ?I = "initial_gui False (\<lambda>name. None) (\<lambda>name. False)"
  let ?row = "[0 \<mapsto> lit ''FileName and Content'']"
  have h: "?row 0 = Some (lit ''FileName and Content'')
      \<and> py_in (lit ''FileName'') (lit ''FileName and Content'')
      \<and> py_in (lit ''Content'') (lit ''FileName and Content'')"
    by (simp add: lit_def)
  have before: "summary_counts (update_summary 1 (?I\<lparr>results_table := []\<rparr>)) = Some (1, 0, 0)"
    by (simp add: summary_counts_def update_summary_def count_matches_Nil)
  from update_summary_counters_exclusive
      [where n = 1 and st = ?I and t = "[]" and row = ?row
         and s = "lit ''FileName and Content''"] h
  obtain fn cn where "summary_counts (update_summary 1 (?I\<lparr>results_table := []\<rparr>)) = Some (1, fn, cn)"
    and "summary_counts (update_summary 1 (?I\<lparr>results_table := [] @ [?row]\<rparr>)) = Some (1, fn + 1, cn)"
    by blast
  with before have "summary_counts (update_summary 1 (?I\<lparr>results_table := [] @ [?row]\<rparr>)) =
      Some (1, 1, 0)"
    by simp
  with h before show ?thesis by blast
qed


section \<open>Reading a CSV file\<close>




















end
